theory Spec2Isabelle
  imports Main "HOL-Library.Word"
begin

unbundle bit_operations_syntax

section \<open>Machine types\<close>

type_synonym u8 = "8 word"
type_synonym u32 = "32 word"
type_synonym u64 = "64 word"

section \<open>Hash (util/hash.cpp)\<close>

text \<open>
  The input of \<open>Hash\<close> is a pointer \<open>data\<close> and a byte count \<open>n\<close>. The memory behind
  the pointer is a function from byte offsets to bytes; \<open>n\<close> is a \<open>size_t\<close>. Whether plain
  \<open>char\<close> is signed is left to the platform by the language, so it is a parameter
  (\<open>True\<close> on x86 Linux): the trailing bytes are read as \<open>char\<close> and promoted to \<open>int\<close>.
\<close>

definition DecodeFixed32 :: "(nat \<Rightarrow> u8) \<Rightarrow> nat \<Rightarrow> u32" where
  "DecodeFixed32 mem p =
     (ucast (mem p)) OR push_bit 8 (ucast (mem (p + 1)))
       OR push_bit 16 (ucast (mem (p + 2))) OR push_bit 24 (ucast (mem (p + 3)))"

definition char_to_int :: "bool \<Rightarrow> u8 \<Rightarrow> u32" where
  "char_to_int char_signed c = (if char_signed then scast c else ucast c)"

definition hash_m :: u32 where "hash_m = 0xc6a4a793"
definition hash_r :: nat where "hash_r = 24"

function Hash_loop :: "(nat \<Rightarrow> u8) \<Rightarrow> nat \<Rightarrow> nat \<Rightarrow> u32 \<Rightarrow> nat \<times> u32" where
  "Hash_loop mem p limit h =
     (if p + 4 \<le> limit then
        (let w = DecodeFixed32 mem p;
             h1 = h + w;
             h2 = h1 * hash_m;
             h3 = h2 XOR drop_bit 16 h2
         in Hash_loop mem (p + 4) limit h3)
      else (p, h))"
  by pat_completeness auto
termination
  by (relation "measure (\<lambda>(mem, p, limit, h). limit - p)") auto

definition Hash_tail :: "bool \<Rightarrow> (nat \<Rightarrow> u8) \<Rightarrow> nat \<Rightarrow> nat \<Rightarrow> u32 \<Rightarrow> u32" where
  "Hash_tail char_signed mem p rest h =
     (let fin = (\<lambda>h. let h1 = h + char_to_int char_signed (mem p);
                         h2 = h1 * hash_m
                     in h2 XOR drop_bit hash_r h2);
          c2 = (\<lambda>h. h + push_bit 8 (char_to_int char_signed (mem (p + 1))));
          c3 = (\<lambda>h. h + push_bit 16 (char_to_int char_signed (mem (p + 2))))
      in if rest = 3 then fin (c2 (c3 h))
         else if rest = 2 then fin (c2 h)
         else if rest = 1 then fin h
         else h)"

definition Hash :: "bool \<Rightarrow> (nat \<Rightarrow> u8) \<Rightarrow> nat \<Rightarrow> u32 \<Rightarrow> u32" where
  "Hash char_signed mem n seed =
     (let h0 = (ucast ((ucast seed :: u64) XOR (of_nat n * ucast hash_m)) :: u32);
          (p, h) = Hash_loop mem 0 n h0
      in Hash_tail char_signed mem p (n - p) h)"

section \<open>Encoding primitives (util/coding.cpp, util/coding.h)\<close>

text \<open>
  A buffer handed to a decoder as a pointer range \<open>[p, limit)\<close>, or as a \<open>Slice\<close>, is the
  list of its bytes. A pointer returned into the range is the list of the bytes from it to
  \<open>limit\<close>; \<open>nullptr\<close> is \<open>None\<close>. An output parameter is passed in with its old
  content and returned with its new one, so that a write is visible in the result. An
  encoder that writes through \<open>dst\<close> and returns the advanced pointer is the list of the
  bytes it wrote.
\<close>

type_synonym Slice = "u8 list"

definition EncodeVarint32 :: "u32 \<Rightarrow> u8 list" where
  "EncodeVarint32 v =
     (let B = (128 :: u32) in
      if v < push_bit 7 1 then [ucast v]
      else if v < push_bit 14 1 then [ucast (v OR B), ucast (drop_bit 7 v)]
      else if v < push_bit 21 1 then
        [ucast (v OR B), ucast (drop_bit 7 v OR B), ucast (drop_bit 14 v)]
      else if v < push_bit 28 1 then
        [ucast (v OR B), ucast (drop_bit 7 v OR B), ucast (drop_bit 14 v OR B),
         ucast (drop_bit 21 v)]
      else
        [ucast (v OR B), ucast (drop_bit 7 v OR B), ucast (drop_bit 14 v OR B),
         ucast (drop_bit 21 v OR B), ucast (drop_bit 28 v)])"

definition PutVarint32 :: "u8 list \<Rightarrow> u32 \<Rightarrow> u8 list" where
  "PutVarint32 dst v = dst @ EncodeVarint32 v"

function EncodeVarint64 :: "u64 \<Rightarrow> u8 list" where
  "EncodeVarint64 v =
     (if v \<ge> 128 then ucast ((v AND (128 - 1)) OR 128) # EncodeVarint64 (drop_bit 7 v)
      else [ucast v])"
  by pat_completeness auto
termination
proof (relation "measure unat")
  fix v :: u64
  assume "128 \<le> v"
  then have "unat v \<noteq> 0"
    by (auto simp add: word_le_nat_alt)
  then have "unat v div 2 ^ 7 < unat v"
    by simp
  then show "(drop_bit 7 v, v) \<in> measure unat"
    by (simp add: drop_bit_eq_div unat_div)
qed simp

definition PutVarint64 :: "u8 list \<Rightarrow> u64 \<Rightarrow> u8 list" where
  "PutVarint64 dst v = dst @ EncodeVarint64 v"

definition PutLengthPrefixedSlice :: "u8 list \<Rightarrow> Slice \<Rightarrow> u8 list" where
  "PutLengthPrefixedSlice dst val = PutVarint32 dst (of_nat (length val)) @ val"

function VarintLength_loop :: "u64 \<Rightarrow> int \<Rightarrow> int" where
  "VarintLength_loop v len =
     (if v \<ge> 128 then VarintLength_loop (drop_bit 7 v) (len + 1) else len)"
  by pat_completeness auto
termination
proof (relation "measure (\<lambda>(v, len). unat v)")
  fix v :: u64 and len :: int
  assume "128 \<le> v"
  then have "unat v \<noteq> 0"
    by (auto simp add: word_le_nat_alt)
  then have "unat v div 2 ^ 7 < unat v"
    by simp
  then show "((drop_bit 7 v, len + 1), (v, len)) \<in> measure (\<lambda>(v, len). unat v)"
    by (simp add: drop_bit_eq_div unat_div)
qed simp

definition VarintLength :: "u64 \<Rightarrow> int" where
  "VarintLength v = VarintLength_loop v 1"

fun GetVarint32PtrFallback_loop ::
  "nat \<Rightarrow> u32 \<Rightarrow> u8 list \<Rightarrow> u32 \<Rightarrow> u8 list option \<times> u32" where
  "GetVarint32PtrFallback_loop shift result [] val = (None, val)"
| "GetVarint32PtrFallback_loop shift result (c # p) val =
     (if shift \<le> 28 then
        (let byte = (ucast c :: u32) in
         if byte AND 128 \<noteq> 0 then
           GetVarint32PtrFallback_loop (shift + 7)
             (result OR push_bit shift (byte AND 127)) p val
         else (Some p, result OR push_bit shift byte))
      else (None, val))"

definition GetVarint32PtrFallback :: "u8 list \<Rightarrow> u32 \<Rightarrow> u8 list option \<times> u32" where
  "GetVarint32PtrFallback p val = GetVarint32PtrFallback_loop 0 0 p val"

definition GetVarint32Ptr :: "u8 list \<Rightarrow> u32 \<Rightarrow> u8 list option \<times> u32" where
  "GetVarint32Ptr p val =
     (case p of
        c # q \<Rightarrow>
          (let result = (ucast c :: u32) in
           if result AND 128 = 0 then (Some q, result)
           else GetVarint32PtrFallback p val)
      | [] \<Rightarrow> GetVarint32PtrFallback p val)"

definition GetVarint32 :: "Slice \<Rightarrow> u32 \<Rightarrow> bool \<times> Slice \<times> u32" where
  "GetVarint32 input val =
     (case GetVarint32Ptr input val of
        (None, val') \<Rightarrow> (False, input, val')
      | (Some q, val') \<Rightarrow> (True, q, val'))"

fun GetVarint64Ptr_loop ::
  "nat \<Rightarrow> u64 \<Rightarrow> u8 list \<Rightarrow> u64 \<Rightarrow> u8 list option \<times> u64" where
  "GetVarint64Ptr_loop shift result [] val = (None, val)"
| "GetVarint64Ptr_loop shift result (c # p) val =
     (if shift \<le> 63 then
        (let byte = (ucast c :: u64) in
         if byte AND 128 \<noteq> 0 then
           GetVarint64Ptr_loop (shift + 7)
             (result OR push_bit shift (byte AND 127)) p val
         else (Some p, result OR push_bit shift byte))
      else (None, val))"

definition GetVarint64Ptr :: "u8 list \<Rightarrow> u64 \<Rightarrow> u8 list option \<times> u64" where
  "GetVarint64Ptr p val = GetVarint64Ptr_loop 0 0 p val"

definition GetVarint64 :: "Slice \<Rightarrow> u64 \<Rightarrow> bool \<times> Slice \<times> u64" where
  "GetVarint64 input val =
     (case GetVarint64Ptr input val of
        (None, val') \<Rightarrow> (False, input, val')
      | (Some q, val') \<Rightarrow> (True, q, val'))"

text \<open>
  The pointer form of \<open>GetLengthPrefixedSlice\<close>. Its local \<open>len\<close> is not initialised
  and is read only after \<open>GetVarint32Ptr\<close> has stored into it; the model starts it at 0.
\<close>

definition GetLengthPrefixedSlice_ptr ::
  "u8 list \<Rightarrow> Slice \<Rightarrow> u8 list option \<times> Slice" where
  "GetLengthPrefixedSlice_ptr p result =
     (case GetVarint32Ptr p 0 of
        (None, len) \<Rightarrow> (None, result)
      | (Some q, len) \<Rightarrow>
          if unat len > length q then (None, result)
          else (Some (drop (unat len) q), take (unat len) q))"

text \<open>
  The \<open>Slice\<close> form. \<open>GetVarint32\<close> works on the caller's \<open>input\<close> itself, so what it
  leaves there is what the caller sees when the length test fails afterwards.
\<close>

definition GetLengthPrefixedSlice :: "Slice \<Rightarrow> Slice \<Rightarrow> bool \<times> Slice \<times> Slice" where
  "GetLengthPrefixedSlice input result =
     (case GetVarint32 input 0 of
        (ok, input1, len) \<Rightarrow>
          if ok \<and> length input1 \<ge> unat len
          then (True, drop (unat len) input1, take (unat len) input1)
          else (False, input1, result))"

section \<open>Faults\<close>

text \<open>
  What ends a run instead of a result: a failed \<open>assert\<close>, a read of memory that was
  never written, an access outside an array, a null pointer followed, and a search that
  does not come to an end within the steps it is given.
\<close>

datatype fault = AssertionFailed | UninitializedRead | OutOfBounds | NullDereference
  | FuelExhausted | BadAlloc | UnsupportedMerge

definition bind_fault :: "fault + 'a \<Rightarrow> ('a \<Rightarrow> fault + 'b) \<Rightarrow> fault + 'b" where
  "bind_fault m f = (case m of Inl e \<Rightarrow> Inl e | Inr x \<Rightarrow> f x)"

section \<open>Arena (util/arena.h, the arena implementation)\<close>

text \<open>
  A name cannot end in an underscore here, so a member \<open>x_\<close> of a class of the source
  is written \<open>x_m\<close>.

  Addresses and byte counts are natural numbers. \<open>blocks_memory_\<close>, the capacity of
  \<open>blocks_\<close> and the pointers into a block count or address memory that exists at one
  time in a 64-bit address space, so their \<open>size_t\<close> arithmetic cannot wrap. The one
  sum the code forms from the caller's argument alone, \<open>needed = bytes + slop\<close> in
  \<open>AllocateAligned\<close>, is taken modulo \<open>2 ^ 64\<close>, as \<open>size_t\<close> does.

  Two things come from outside the sources and are parameters. \<open>new_char k n\<close> is
  \<open>new char[n]\<close> when \<open>k\<close> blocks are held already: the address of the new block, or
  \<open>None\<close> when the allocation fails (\<open>std::bad_alloc\<close>, which nothing catches).
  \<open>grow\<close> is the policy by which \<open>std::vector\<close> enlarges its capacity when
  \<open>push_back\<close> finds it full; the language only promises room for the new element.
\<close>

record vector =
  elems :: "nat list"
  capacity :: nat

definition vector_empty :: vector where
  "vector_empty = \<lparr>elems = [], capacity = 0\<rparr>"

definition push_back :: "(nat \<Rightarrow> nat) \<Rightarrow> vector \<Rightarrow> nat \<Rightarrow> vector" where
  "push_back grow v x =
     (if length (elems v) < capacity v then v\<lparr>elems := elems v @ [x]\<rparr>
      else \<lparr>elems = elems v @ [x],
            capacity = max (grow (capacity v)) (length (elems v) + 1)\<rparr>)"

record Arena =
  alloc_ptr_m :: nat
  alloc_bytes_remaining_m :: nat
  blocks_m :: vector
  blocks_memory_m :: nat

definition kBlockSize :: nat where "kBlockSize = 4096"

definition Arena_new :: Arena where
  "Arena_new = \<lparr>alloc_ptr_m = 0, alloc_bytes_remaining_m = 0, blocks_m = vector_empty,
                 blocks_memory_m = 0\<rparr>"

definition MemoryUsage :: "Arena \<Rightarrow> nat" where
  "MemoryUsage a = blocks_memory_m a + capacity (blocks_m a) * 8"

definition AllocateNewBlock ::
  "(nat \<Rightarrow> nat \<Rightarrow> nat option) \<Rightarrow> (nat \<Rightarrow> nat) \<Rightarrow> Arena \<Rightarrow> nat \<Rightarrow> fault + (nat \<times> Arena)" where
  "AllocateNewBlock new_char grow a bytes =
     (case new_char (length (elems (blocks_m a))) bytes of
        None \<Rightarrow> Inl BadAlloc
      | Some result \<Rightarrow>
          Inr (result, a\<lparr>blocks_memory_m := blocks_memory_m a + bytes,
                          blocks_m := push_back grow (blocks_m a) result\<rparr>))"

definition AllocateFallback ::
  "(nat \<Rightarrow> nat \<Rightarrow> nat option) \<Rightarrow> (nat \<Rightarrow> nat) \<Rightarrow> Arena \<Rightarrow> nat \<Rightarrow> fault + (nat \<times> Arena)" where
  "AllocateFallback new_char grow a bytes =
     (if bytes > kBlockSize div 4 then AllocateNewBlock new_char grow a bytes
      else
        (case AllocateNewBlock new_char grow a kBlockSize of
           Inl e \<Rightarrow> Inl e
         | Inr (p, a1) \<Rightarrow>
             (let a2 = a1\<lparr>alloc_ptr_m := p, alloc_bytes_remaining_m := kBlockSize\<rparr>;
                  result = alloc_ptr_m a2
              in Inr (result, a2\<lparr>alloc_ptr_m := alloc_ptr_m a2 + bytes,
                                 alloc_bytes_remaining_m := alloc_bytes_remaining_m a2 - bytes\<rparr>))))"

definition Allocate ::
  "(nat \<Rightarrow> nat \<Rightarrow> nat option) \<Rightarrow> (nat \<Rightarrow> nat) \<Rightarrow> Arena \<Rightarrow> nat \<Rightarrow> fault + (nat \<times> Arena)" where
  "Allocate new_char grow a bytes =
     (if \<not> bytes > 0 then Inl AssertionFailed
      else if bytes \<le> alloc_bytes_remaining_m a then
        Inr (alloc_ptr_m a, a\<lparr>alloc_ptr_m := alloc_ptr_m a + bytes,
                               alloc_bytes_remaining_m := alloc_bytes_remaining_m a - bytes\<rparr>)
      else AllocateFallback new_char grow a bytes)"

definition AllocateAligned ::
  "(nat \<Rightarrow> nat \<Rightarrow> nat option) \<Rightarrow> (nat \<Rightarrow> nat) \<Rightarrow> Arena \<Rightarrow> nat \<Rightarrow> fault + (nat \<times> Arena)" where
  "AllocateAligned new_char grow a bytes =
     (let align = 8;
          current_mod = alloc_ptr_m a mod align;
          slop = (if current_mod = 0 then 0 else align - current_mod);
          needed = (bytes + slop) mod 2 ^ 64;
          r = (if needed \<le> alloc_bytes_remaining_m a then
                 Inr (alloc_ptr_m a + slop,
                      a\<lparr>alloc_ptr_m := alloc_ptr_m a + needed,
                        alloc_bytes_remaining_m := alloc_bytes_remaining_m a - needed\<rparr>)
               else AllocateFallback new_char grow a bytes)
      in case r of
           Inl e \<Rightarrow> Inl e
         | Inr (result, a') \<Rightarrow>
             if \<not> result mod align = 0 then Inl AssertionFailed else Inr (result, a'))"

text \<open>
  A sequence of requests to one arena: each call is made on the arena the call before
  left; the run stops at the first fault and otherwise lists the arena after every call.
\<close>

datatype arena_call = CallAllocate nat | CallAllocateAligned nat

fun call_bytes :: "arena_call \<Rightarrow> nat" where
  "call_bytes (CallAllocate n) = n"
| "call_bytes (CallAllocateAligned n) = n"

fun Arena_call ::
  "(nat \<Rightarrow> nat \<Rightarrow> nat option) \<Rightarrow> (nat \<Rightarrow> nat) \<Rightarrow> Arena \<Rightarrow> arena_call \<Rightarrow> fault + (nat \<times> Arena)" where
  "Arena_call new_char grow a (CallAllocate n) = Allocate new_char grow a n"
| "Arena_call new_char grow a (CallAllocateAligned n) = AllocateAligned new_char grow a n"

fun Arena_run ::
  "(nat \<Rightarrow> nat \<Rightarrow> nat option) \<Rightarrow> (nat \<Rightarrow> nat) \<Rightarrow> Arena \<Rightarrow> arena_call list \<Rightarrow> fault + Arena list" where
  "Arena_run new_char grow a [] = Inr []"
| "Arena_run new_char grow a (c # cs) =
     (case Arena_call new_char grow a c of
        Inl e \<Rightarrow> Inl e
      | Inr (p, a') \<Rightarrow>
          (case Arena_run new_char grow a' cs of
             Inl e \<Rightarrow> Inl e
           | Inr as \<Rightarrow> Inr (a' # as)))"

text \<open>
  The requests for which the usage is shown to cover the bytes requested: a positive
  \<open>size_t\<close>, and for an aligned request one that leaves room for the padding of up to 7
  bytes, so that \<open>bytes + slop\<close> does not wrap.
\<close>

fun call_ok :: "arena_call \<Rightarrow> bool" where
  "call_ok (CallAllocate n) = (0 < n \<and> n < 2 ^ 64)"
| "call_ok (CallAllocateAligned n) = (0 < n \<and> n + 8 \<le> 2 ^ 64)"

text \<open>An allocator that never fails and a doubling vector, to run the arena on.\<close>

definition aligned_blocks :: "nat \<Rightarrow> nat \<Rightarrow> nat option" where
  "aligned_blocks k n = Some (2 ^ 32 * (k + 1))"

definition doubling :: "nat \<Rightarrow> nat" where
  "doubling c = 2 * c"

section \<open>Bit-packed integers (util/coding.cpp)\<close>

text \<open>
  The buffer \<open>(dst, dstlen)\<close> is the list of its \<open>dstlen\<close> bytes; an access past its end
  is the fault \<open>OutOfBounds\<close>, a failed \<open>assert\<close> the fault \<open>AssertionFailed\<close>. Offsets
  and widths are natural numbers; the two places where \<open>size_t\<close> arithmetic can wrap,
  \<open>offset + bits + 7\<close> in the assertions and \<open>8 - bitOffset\<close> in the loops, are taken
  modulo \<open>2 ^ 64\<close>.

  The loop bodies follow the integer conversions of the source. The mask
  \<open>(1 << bitsToGet) - 1\<close> is computed in \<open>int\<close> and stored in an \<open>unsigned char\<close>. In
  \<open>BitStreamPutInt\<close> the old byte and the shifted mask are promoted to \<open>int\<close>, the
  cleared byte is converted to \<open>uint64_t\<close> for the addition, and the sum is cut to a byte
  by the store. In \<open>BitStreamGetInt\<close> the byte is shifted and masked in \<open>int\<close>,
  converted to \<open>uint64_t\<close> and then shifted left.
\<close>

definition bits_to_get :: "nat \<Rightarrow> nat \<Rightarrow> nat" where
  "bits_to_get bits bitOffset = min bits ((8 + 2 ^ 64 - bitOffset) mod 2 ^ 64)"

definition bit_mask :: "nat \<Rightarrow> u8" where
  "bit_mask bitsToGet = ucast ((push_bit bitsToGet 1 :: u32) - 1)"

definition BitStreamPutInt_byte :: "u8 \<Rightarrow> nat \<Rightarrow> u8 \<Rightarrow> u64 \<Rightarrow> u8" where
  "BitStreamPutInt_byte old bitOffset msk val =
     ucast ((scast ((ucast old :: u32) AND NOT (push_bit bitOffset (ucast msk :: u32))) :: u64)
            + push_bit bitOffset (val AND ucast msk))"

function BitStreamPutInt_loop :: "u8 list \<Rightarrow> nat \<Rightarrow> nat \<Rightarrow> nat \<Rightarrow> u64 \<Rightarrow> fault + u8 list" where
  "BitStreamPutInt_loop ptr byteOffset bitOffset bits val =
     (if bits > 0 then
        (if \<not> byteOffset < length ptr then Inl OutOfBounds
         else BitStreamPutInt_loop
                (ptr[byteOffset := BitStreamPutInt_byte (ptr ! byteOffset) bitOffset
                                     (bit_mask (bits_to_get bits bitOffset)) val])
                (byteOffset + 1) 0 (bits - bits_to_get bits bitOffset)
                (drop_bit (bits_to_get bits bitOffset) val))
      else Inr ptr)"
  by pat_completeness auto
termination
proof (relation "measure (\<lambda>(ptr, byteOffset, bitOffset, bits, val).
                   2 * bits + (if bitOffset = 0 then 0 else 1))")
  fix ptr :: "u8 list" and byteOffset bitOffset bits :: nat and val :: u64
  assume "0 < bits"
  then show "((ptr[byteOffset := BitStreamPutInt_byte (ptr ! byteOffset) bitOffset
                                     (bit_mask (bits_to_get bits bitOffset)) val],
               byteOffset + 1, 0, bits - bits_to_get bits bitOffset,
               drop_bit (bits_to_get bits bitOffset) val),
              (ptr, byteOffset, bitOffset, bits, val))
            \<in> measure (\<lambda>(ptr, byteOffset, bitOffset, bits, val).
                   2 * bits + (if bitOffset = 0 then 0 else 1))"
    by (cases "bitOffset = 0") (auto simp add: bits_to_get_def min_def)
qed simp

definition BitStreamGetInt_chunk :: "u8 \<Rightarrow> nat \<Rightarrow> u8 \<Rightarrow> u64" where
  "BitStreamGetInt_chunk byte bitOffset msk =
     scast (drop_bit bitOffset (ucast byte :: u32) AND (ucast msk :: u32))"

function BitStreamGetInt_loop ::
  "u8 list \<Rightarrow> nat \<Rightarrow> nat \<Rightarrow> nat \<Rightarrow> nat \<Rightarrow> u64 \<Rightarrow> fault + u64" where
  "BitStreamGetInt_loop ptr byteOffset bitOffset shift bits result =
     (if bits > 0 then
        (if \<not> byteOffset < length ptr then Inl OutOfBounds
         else BitStreamGetInt_loop ptr (byteOffset + 1) 0
                (shift + bits_to_get bits bitOffset) (bits - bits_to_get bits bitOffset)
                (result + push_bit shift
                   (BitStreamGetInt_chunk (ptr ! byteOffset) bitOffset
                      (bit_mask (bits_to_get bits bitOffset)))))
      else Inr result)"
  by pat_completeness auto
termination
proof (relation "measure (\<lambda>(ptr, byteOffset, bitOffset, shift, bits, result).
                   2 * bits + (if bitOffset = 0 then 0 else 1))")
  fix ptr :: "u8 list" and byteOffset bitOffset shift bits :: nat and result :: u64
  assume "0 < bits"
  then show "((ptr, byteOffset + 1, 0, shift + bits_to_get bits bitOffset,
               bits - bits_to_get bits bitOffset,
               result + push_bit shift
                   (BitStreamGetInt_chunk (ptr ! byteOffset) bitOffset
                      (bit_mask (bits_to_get bits bitOffset)))),
              (ptr, byteOffset, bitOffset, shift, bits, result))
            \<in> measure (\<lambda>(ptr, byteOffset, bitOffset, shift, bits, result).
                   2 * bits + (if bitOffset = 0 then 0 else 1))"
    by (cases "bitOffset = 0") (auto simp add: bits_to_get_def min_def)
qed simp

definition BitStreamGetInt :: "u8 list \<Rightarrow> nat \<Rightarrow> nat \<Rightarrow> fault + u64" where
  "BitStreamGetInt src offset bits =
     (if \<not> ((offset + bits + 7) mod 2 ^ 64) div 8 \<le> length src then Inl AssertionFailed
      else if \<not> bits \<le> 64 then Inl AssertionFailed
      else BitStreamGetInt_loop src (offset div 8) (offset mod 8) 0 bits 0)"

definition BitStreamPutInt :: "u8 list \<Rightarrow> nat \<Rightarrow> nat \<Rightarrow> u64 \<Rightarrow> fault + u8 list" where
  "BitStreamPutInt dst offset bits val =
     (if \<not> ((offset + bits + 7) mod 2 ^ 64) div 8 \<le> length dst then Inl AssertionFailed
      else if \<not> bits \<le> 64 then Inl AssertionFailed
      else
        (let origValue = (if bits < 64 then val AND (push_bit bits 1 - 1) else val);
             origBits = bits
         in case BitStreamPutInt_loop dst (offset div 8) (offset mod 8) bits val of
              Inl e \<Rightarrow> Inl e
            | Inr dst' \<Rightarrow>
                (case BitStreamGetInt dst' offset origBits of
                   Inl e \<Rightarrow> Inl e
                 | Inr r \<Rightarrow> if origValue = r then Inr dst' else Inl AssertionFailed)))"

text \<open>
  Bit \<open>i\<close> of a buffer, numbered as the header says: 0 to 7 in the first byte, 8 to 15
  in the second, and so on.
\<close>

definition buffer_bit :: "u8 list \<Rightarrow> nat \<Rightarrow> bool" where
  "buffer_bit buf i = bit (buf ! (i div 8)) (i mod 8)"

section \<open>WriteBatch (include/leveldb/write_batch.h)\<close>

text \<open>
  The header declares the class; of its members only \<open>Data\<close> and the constructor from a
  serialized string have a body there. The fixed-width encoders are those of
  \<open>util/coding.cpp\<close> on a little-endian target (\<open>port::kLittleEndian\<close> is true), and
  the status codes are the enumeration of the status header.
\<close>

definition EncodeFixed32 :: "u32 \<Rightarrow> u8 list" where
  "EncodeFixed32 v = [ucast v, ucast (drop_bit 8 v), ucast (drop_bit 16 v), ucast (drop_bit 24 v)]"

definition EncodeFixed64 :: "u64 \<Rightarrow> u8 list" where
  "EncodeFixed64 v =
     [ucast v, ucast (drop_bit 8 v), ucast (drop_bit 16 v), ucast (drop_bit 24 v),
      ucast (drop_bit 32 v), ucast (drop_bit 40 v), ucast (drop_bit 48 v),
      ucast (drop_bit 56 v)]"

definition PutFixed32 :: "u8 list \<Rightarrow> u32 \<Rightarrow> u8 list" where
  "PutFixed32 dst v = dst @ EncodeFixed32 v"

definition PutFixed64 :: "u8 list \<Rightarrow> u64 \<Rightarrow> u8 list" where
  "PutFixed64 dst v = dst @ EncodeFixed64 v"

datatype Code = Ok | NotFound | Corruption | NotSupported | InvalidArgument | IOError

record WriteBatch =
  rep_m :: "u8 list"

definition Data :: "WriteBatch \<Rightarrow> u8 list" where
  "Data b = rep_m b"

definition WriteBatch_from :: "u8 list \<Rightarrow> WriteBatch" where
  "WriteBatch_from rep = \<lparr>rep_m = rep\<rparr>"

text \<open>
  A record of a batch, as a handler sees it: the arguments of one \<open>Put\<close>, \<open>Delete\<close> or
  \<open>Merge\<close>.
\<close>

datatype batch_record = PutRecord Slice Slice | DeleteRecord Slice | MergeRecord Slice Slice

text \<open>
  Modelled from the spec: the length of the batch header, a constant of the missing
  \<open>write_batch.cc\<close>. The header is a fixed-width 64-bit sequence number followed by a
  fixed-width 32-bit record count, 12 bytes.
\<close>

definition kHeader :: nat where "kHeader = 12"

text \<open>
  Modelled from the spec: the one-byte tag that begins a Delete record. The missing
  source defines the tags; the spec leaves their values to the implementer, and the three
  here are distinct bytes.
\<close>

definition kTypeDeletion :: u8 where "kTypeDeletion = 0"

text \<open>Modelled from the spec: the one-byte tag that begins a Put record (see above).\<close>

definition kTypeValue :: u8 where "kTypeValue = 1"

text \<open>Modelled from the spec: the one-byte tag that begins a Merge record (see above).\<close>

definition kTypeMerge :: u8 where "kTypeMerge = 2"

text \<open>
  Modelled from the spec: \<open>WriteBatch::Clear\<close>, whose body is missing. It resets the
  buffer to the header alone (sequence number 0, count 0).
\<close>

definition Clear :: "WriteBatch \<Rightarrow> WriteBatch" where
  "Clear b = b\<lparr>rep_m := PutFixed32 (PutFixed64 [] 0) 0\<rparr>"

text \<open>
  Modelled from the spec: the default constructor \<open>WriteBatch()\<close>, whose body is
  missing. A new batch is a cleared one.
\<close>

definition WriteBatch_new :: WriteBatch where
  "WriteBatch_new = Clear \<lparr>rep_m = []\<rparr>"

text \<open>
  Modelled from the spec: reading the record count of the header (bytes 8 to 11), a
  helper of the missing implementation.
\<close>

definition Count :: "WriteBatch \<Rightarrow> u32" where
  "Count b = DecodeFixed32 (\<lambda>i. rep_m b ! i) 8"

text \<open>
  Modelled from the spec: writing the record count of the header, a helper of the
  missing implementation.
\<close>

definition SetCount :: "WriteBatch \<Rightarrow> u32 \<Rightarrow> WriteBatch" where
  "SetCount b n = b\<lparr>rep_m := take 8 (rep_m b) @ EncodeFixed32 n @ drop 12 (rep_m b)\<rparr>"

text \<open>
  Modelled from the spec: what \<open>WriteBatch::Put\<close>, \<open>Delete\<close> and \<open>Merge\<close>, whose
  bodies are missing, have in common. Each counts the record in the header and appends
  the bytes of the record to the buffer, in call order.
\<close>

definition append_record :: "WriteBatch \<Rightarrow> u8 list \<Rightarrow> WriteBatch" where
  "append_record b bytes =
     (let b1 = SetCount b (Count b + 1) in b1\<lparr>rep_m := rep_m b1 @ bytes\<rparr>)"

text \<open>
  Modelled from the spec: \<open>WriteBatch::Put\<close>, whose body is missing. The record is the
  tag, the varint32-length-prefixed key and the varint32-length-prefixed value.
\<close>

definition Put :: "WriteBatch \<Rightarrow> Slice \<Rightarrow> Slice \<Rightarrow> WriteBatch" where
  "Put b k v =
     append_record b (PutLengthPrefixedSlice (PutLengthPrefixedSlice [kTypeValue] k) v)"

text \<open>
  Modelled from the spec: \<open>WriteBatch::Delete\<close>, whose body is missing. The record is
  the tag and the varint32-length-prefixed key; it carries no value.
\<close>

definition Delete :: "WriteBatch \<Rightarrow> Slice \<Rightarrow> WriteBatch" where
  "Delete b k = append_record b (PutLengthPrefixedSlice [kTypeDeletion] k)"

text \<open>
  Modelled from the spec: \<open>WriteBatch::Merge\<close>, whose body is missing. The record is the
  tag, the varint32-length-prefixed key and the varint32-length-prefixed value.
\<close>

definition Merge :: "WriteBatch \<Rightarrow> Slice \<Rightarrow> Slice \<Rightarrow> WriteBatch" where
  "Merge b k v =
     append_record b (PutLengthPrefixedSlice (PutLengthPrefixedSlice [kTypeMerge] k) v)"

text \<open>
  The visitor \<open>WriteBatch::Handler\<close> of the header: its three virtual functions act on
  a state of the handler, and a call may end in a fault.
\<close>

record 'h Handler =
  handler_Put :: "Slice \<Rightarrow> Slice \<Rightarrow> 'h \<Rightarrow> fault + 'h"
  handler_Merge :: "Slice \<Rightarrow> Slice \<Rightarrow> 'h \<Rightarrow> fault + 'h"
  handler_Delete :: "Slice \<Rightarrow> 'h \<Rightarrow> fault + 'h"

text \<open>
  Modelled from the spec: the loop of \<open>WriteBatch::Iterate\<close>, whose body is missing. It
  replays the records in order: it reads a tag, decodes the length-prefixed key (and
  value) with \<open>GetLengthPrefixedSlice\<close> and calls the handler; a record that does not
  decode or an unknown tag gives the status \<open>Corruption\<close>.
\<close>

function Iterate_loop :: "'h Handler \<Rightarrow> u8 list \<Rightarrow> 'h \<Rightarrow> fault + (Code \<times> 'h)" where
  "Iterate_loop h [] s = Inr (Ok, s)"
| "Iterate_loop h (tag # input) s =
     (if tag = kTypeValue \<or> tag = kTypeMerge then
        (case GetLengthPrefixedSlice input [] of
           (False, input1, k) \<Rightarrow> Inr (Corruption, s)
         | (True, input1, k) \<Rightarrow>
             (case GetLengthPrefixedSlice input1 [] of
                (False, input2, v) \<Rightarrow> Inr (Corruption, s)
              | (True, input2, v) \<Rightarrow>
                  (case (if tag = kTypeValue then handler_Put h k v s
                         else handler_Merge h k v s) of
                     Inl e \<Rightarrow> Inl e
                   | Inr s' \<Rightarrow> Iterate_loop h input2 s')))
      else if tag = kTypeDeletion then
        (case GetLengthPrefixedSlice input [] of
           (False, input1, k) \<Rightarrow> Inr (Corruption, s)
         | (True, input1, k) \<Rightarrow>
             (case handler_Delete h k s of
                Inl e \<Rightarrow> Inl e
              | Inr s' \<Rightarrow> Iterate_loop h input1 s'))
      else Inr (Corruption, s))"
  by pat_completeness auto
termination
proof -
  have fb: "fst (GetVarint32PtrFallback_loop shift result p val) = Some q \<Longrightarrow> length q \<le> length p"
    for shift result p val q
    by (induction shift result p val rule: GetVarint32PtrFallback_loop.induct)
      (auto simp add: Let_def split: if_splits)
  have vp: "GetVarint32Ptr p val = (Some q, v) \<Longrightarrow> length q \<le> length p" for p val q v
    using fb [of 0 0 p val q]
    by (auto simp add: GetVarint32Ptr_def GetVarint32PtrFallback_def Let_def
        split: list.splits if_splits)
  have lp: "length (fst (snd (GetLengthPrefixedSlice input r))) \<le> length input" for input r
  proof (cases "GetVarint32Ptr input 0")
    case (Pair q v)
    then show ?thesis
      using vp [of input 0 _ v]
      by (cases q) (auto simp add: GetLengthPrefixedSlice_def GetVarint32_def)
  qed
  show ?thesis
  proof (relation "measure (\<lambda>(h, input, s). length input)")
    show "wf (measure (\<lambda>(h :: 'h Handler, input :: u8 list, s :: 'h). length input))"
      by simp
  next
    fix h :: "'h Handler" and tag input and s b :: 'h and x y xa ya xb yb xc yc
    assume "(x, y) = GetLengthPrefixedSlice input []" "(xa, ya) = y"
      "(xb, yb) = GetLengthPrefixedSlice xa []" "(xc, yc) = yb"
    then have "xa = fst (snd (GetLengthPrefixedSlice input []))"
      and "xc = fst (snd (GetLengthPrefixedSlice xa []))"
      by (metis fst_conv snd_conv)+
    then have "length xc \<le> length input"
      using lp [of input "[]"] lp [of xa "[]"] by simp
    then show "((h, xc, b), h, tag # input, s) \<in> measure (\<lambda>(h, input, s). length input)"
      by simp
  next
    fix h :: "'h Handler" and tag input and s b :: 'h and x y xa ya
    assume "(x, y) = GetLengthPrefixedSlice input []" "(xa, ya) = y"
    then have "xa = fst (snd (GetLengthPrefixedSlice input []))"
      by (metis fst_conv snd_conv)
    then have "length xa \<le> length input"
      using lp [of input "[]"] by simp
    then show "((h, xa, b), h, tag # input, s) \<in> measure (\<lambda>(h, input, s). length input)"
      by simp
  qed
qed

text \<open>
  Modelled from the spec: \<open>WriteBatch::Iterate\<close>, whose body is missing. It replays the
  records that follow the header; a buffer shorter than the header gives the status
  \<open>Corruption\<close>.
\<close>

definition Iterate :: "'h Handler \<Rightarrow> WriteBatch \<Rightarrow> 'h \<Rightarrow> fault + (Code \<times> 'h)" where
  "Iterate h b s =
     (let input = rep_m b in
      if length input < kHeader then Inr (Corruption, s)
      else Iterate_loop h (drop kHeader input) s)"

text \<open>
  Modelled from the spec: \<open>Handler::Merge\<close> when a handler does not override it, a fatal
  condition.
\<close>

definition default_Merge :: "Slice \<Rightarrow> Slice \<Rightarrow> 'h \<Rightarrow> fault + 'h" where
  "default_Merge k v s = Inl UnsupportedMerge"

text \<open>
  A handler that overrides all three functions and writes down every record it is shown,
  and the batch built from a new one by a sequence of calls. A key or value fits the
  format when its length fits the 32 bits of the length prefix.
\<close>

definition recorder :: "batch_record list Handler" where
  "recorder =
     \<lparr>handler_Put = (\<lambda>k v s. Inr (s @ [PutRecord k v])),
      handler_Merge = (\<lambda>k v s. Inr (s @ [MergeRecord k v])),
      handler_Delete = (\<lambda>k s. Inr (s @ [DeleteRecord k]))\<rparr>"

fun apply_call :: "WriteBatch \<Rightarrow> batch_record \<Rightarrow> WriteBatch" where
  "apply_call b (PutRecord k v) = Put b k v"
| "apply_call b (DeleteRecord k) = Delete b k"
| "apply_call b (MergeRecord k v) = Merge b k v"

definition build :: "batch_record list \<Rightarrow> WriteBatch" where
  "build calls = foldl apply_call WriteBatch_new calls"

fun call_fits :: "batch_record \<Rightarrow> bool" where
  "call_fits (PutRecord k v) = (length k < 2 ^ 32 \<and> length v < 2 ^ 32)"
| "call_fits (DeleteRecord k) = (length k < 2 ^ 32)"
| "call_fits (MergeRecord k v) = (length k < 2 ^ 32 \<and> length v < 2 ^ 32)"

fun record_bytes :: "batch_record \<Rightarrow> u8 list" where
  "record_bytes (PutRecord k v) =
     PutLengthPrefixedSlice (PutLengthPrefixedSlice [kTypeValue] k) v"
| "record_bytes (DeleteRecord k) = PutLengthPrefixedSlice [kTypeDeletion] k"
| "record_bytes (MergeRecord k v) =
     PutLengthPrefixedSlice (PutLengthPrefixedSlice [kTypeMerge] k) v"

section \<open>SkipList (the skip list header)\<close>

text \<open>
  Nodes live in arena memory and are never freed: the store is the list of the nodes
  allocated so far and a \<open>Node*\<close> is an index into it (\<open>None\<close> for \<open>nullptr\<close>).
  The constant pointer \<open>head_\<close> is \<open>head\<close>, the first node.

  \<open>NewNode\<close> takes raw memory from the arena for a \<open>Node\<close> and \<open>height - 1\<close> further
  pointers and constructs the \<open>Node\<close> in it. The constructor sets the key and
  default-constructs the one declared element \<open>next_[0]\<close>; the header needs C++20 (it
  names dependent types without \<open>typename\<close>), where a default-constructed
  \<open>std::atomic\<close> pointer is null. The pointers of the levels above 0 lie behind the
  object and are never constructed: they hold nothing (\<open>Uninit\<close>) until a store
  writes them, and a load of one is the fault \<open>UninitializedRead\<close>.

  The memory orders of the atomic accesses are not part of the model: \<open>Next\<close> and
  \<open>NoBarrier_Next\<close> are the same load, \<open>SetNext\<close> and \<open>NoBarrier_SetNext\<close> the same
  store.

  The comparator and the random generator (\<open>util/random.h\<close> is not among the sources)
  are parameters: \<open>cmp a b\<close> is negative, zero or positive, and \<open>Next\<close> maps the state
  of the generator to a draw and the next state.
\<close>

datatype slot = Uninit | Ptr "nat option"

record 'k Node =
  key :: 'k
  next_m :: "slot list"

record ('k, 'r) SkipList =
  nodes :: "'k Node list"
  max_height_m :: int
  prev_m :: "nat list"
  rnd_m :: 'r

definition kMaxHeight :: int where "kMaxHeight = 12"

definition kBranching :: u32 where "kBranching = 4"

definition head :: nat where "head = 0"

definition Node_Next :: "('k, 'r) SkipList \<Rightarrow> nat \<Rightarrow> int \<Rightarrow> fault + nat option" where
  "Node_Next s x n =
     (if \<not> 0 \<le> n then Inl AssertionFailed
      else if \<not> x < length (nodes s) then Inl OutOfBounds
      else if \<not> nat n < length (next_m (nodes s ! x)) then Inl OutOfBounds
      else (case next_m (nodes s ! x) ! nat n of
              Uninit \<Rightarrow> Inl UninitializedRead
            | Ptr p \<Rightarrow> Inr p))"

definition Node_SetNext ::
  "('k, 'r) SkipList \<Rightarrow> nat \<Rightarrow> int \<Rightarrow> nat option \<Rightarrow> fault + ('k, 'r) SkipList" where
  "Node_SetNext s x n p =
     (if \<not> 0 \<le> n then Inl AssertionFailed
      else if \<not> x < length (nodes s) then Inl OutOfBounds
      else if \<not> nat n < length (next_m (nodes s ! x)) then Inl OutOfBounds
      else Inr (s\<lparr>nodes := (nodes s)[x := (nodes s ! x)\<lparr>next_m :=
                  (next_m (nodes s ! x))[nat n := Ptr p]\<rparr>]\<rparr>))"

definition NewNode ::
  "('k, 'r) SkipList \<Rightarrow> 'k \<Rightarrow> int \<Rightarrow> nat \<times> ('k, 'r) SkipList" where
  "NewNode s k height =
     (length (nodes s),
      s\<lparr>nodes := nodes s @
           [\<lparr>key = k, next_m = Ptr None # replicate (nat height - 1) Uninit\<rparr>]\<rparr>)"

fun SkipList_init_loop ::
  "nat \<Rightarrow> int \<Rightarrow> ('k, 'r) SkipList \<Rightarrow> fault + ('k, 'r) SkipList" where
  "SkipList_init_loop 0 i s = Inr s"
| "SkipList_init_loop (Suc todo) i s =
     (case Node_SetNext s head i None of
        Inl e \<Rightarrow> Inl e
      | Inr s' \<Rightarrow> SkipList_init_loop todo (i + 1) (s'\<lparr>prev_m := (prev_m s')[nat i := head]\<rparr>))"

text \<open>
  The constructor: \<open>key0\<close> is the key the head is built with (the literal 0 of the source,
  converted to \<open>Key\<close>), \<open>rnd0\<close> the generator seeded with 0xdeadbeef. The array \<open>prev_m\<close>
  has its \<open>kMaxHeight\<close> cells from the start; the loop fills every one.
\<close>

definition SkipList_new :: "'k \<Rightarrow> 'r \<Rightarrow> fault + ('k, 'r) SkipList" where
  "SkipList_new key0 rnd0 =
     (case NewNode \<lparr>nodes = [], max_height_m = 1, prev_m = replicate (nat kMaxHeight) head,
                     rnd_m = rnd0\<rparr> key0 kMaxHeight of
        (h, s) \<Rightarrow> SkipList_init_loop (nat kMaxHeight) 0 s)"

definition GetMaxHeight :: "('k, 'r) SkipList \<Rightarrow> int" where
  "GetMaxHeight s = max_height_m s"

function RandomHeight_loop :: "('r \<Rightarrow> u32 \<times> 'r) \<Rightarrow> int \<Rightarrow> 'r \<Rightarrow> int \<times> 'r" where
  "RandomHeight_loop Next height rnd =
     (if height < kMaxHeight then
        (if fst (Next rnd) AND kBranching = 0
         then RandomHeight_loop Next (height + 1) (snd (Next rnd))
         else (height, snd (Next rnd)))
      else (height, rnd))"
  by pat_completeness auto
termination
  by (relation "measure (\<lambda>(Next, height, rnd). nat (kMaxHeight - height))") auto

definition RandomHeight :: "('r \<Rightarrow> u32 \<times> 'r) \<Rightarrow> 'r \<Rightarrow> fault + (int \<times> 'r)" where
  "RandomHeight Next rnd =
     (case RandomHeight_loop Next 1 rnd of
        (height, rnd') \<Rightarrow>
          if \<not> height > 0 then Inl AssertionFailed
          else if \<not> height \<le> kMaxHeight then Inl AssertionFailed
          else Inr (height, rnd'))"

definition Equal :: "('k \<Rightarrow> 'k \<Rightarrow> int) \<Rightarrow> 'k \<Rightarrow> 'k \<Rightarrow> bool" where
  "Equal cmp a b = (cmp a b = 0)"

definition KeyIsAfterNode ::
  "('k \<Rightarrow> 'k \<Rightarrow> int) \<Rightarrow> ('k, 'r) SkipList \<Rightarrow> 'k \<Rightarrow> nat option \<Rightarrow> bool" where
  "KeyIsAfterNode cmp s k n =
     (case n of None \<Rightarrow> False | Some x \<Rightarrow> cmp (key (nodes s ! x)) k < 0)"

text \<open>
  The descent of \<open>FindGreatOrEqual\<close> is a \<open>while (true)\<close> that ends only by its
  \<open>return\<close>; on a store whose pointers form a cycle it would not end, so the model counts
  its steps down from \<open>fuel\<close>. The argument \<open>prev\<close> is \<open>None\<close> for \<open>nullptr\<close> and otherwise
  the array the caller passed, returned with the cells the search has written.
\<close>

fun FindGreatOrEqual_loop ::
  "nat \<Rightarrow> ('k \<Rightarrow> 'k \<Rightarrow> int) \<Rightarrow> ('k, 'r) SkipList \<Rightarrow> 'k \<Rightarrow> nat \<Rightarrow> int \<Rightarrow> nat list option
   \<Rightarrow> fault + (nat option \<times> nat list option)" where
  "FindGreatOrEqual_loop 0 cmp s k x level prev = Inl FuelExhausted"
| "FindGreatOrEqual_loop (Suc fuel) cmp s k x level prev =
     (case Node_Next s x level of
        Inl e \<Rightarrow> Inl e
      | Inr next \<Rightarrow>
          if KeyIsAfterNode cmp s k next then
            (case next of
               None \<Rightarrow> Inl NullDereference
             | Some y \<Rightarrow> FindGreatOrEqual_loop fuel cmp s k y level prev)
          else
            (case prev of
               Some pv \<Rightarrow>
                 if \<not> (0 \<le> level \<and> nat level < length pv) then Inl OutOfBounds
                 else if level = 0 then Inr (next, Some (pv[nat level := x]))
                 else FindGreatOrEqual_loop fuel cmp s k x (level - 1)
                        (Some (pv[nat level := x]))
             | None \<Rightarrow>
                 if level = 0 then Inr (next, None)
                 else FindGreatOrEqual_loop fuel cmp s k x (level - 1) None))"

definition FindGreatOrEqual_normal ::
  "nat \<Rightarrow> ('k \<Rightarrow> 'k \<Rightarrow> int) \<Rightarrow> ('k, 'r) SkipList \<Rightarrow> 'k \<Rightarrow> nat list option
   \<Rightarrow> fault + (nat option \<times> nat list option)" where
  "FindGreatOrEqual_normal fuel cmp s k prev =
     FindGreatOrEqual_loop fuel cmp s k head (GetMaxHeight s - 1) prev"

definition FindGreatOrEqual ::
  "nat \<Rightarrow> ('k \<Rightarrow> 'k \<Rightarrow> int) \<Rightarrow> ('k, 'r) SkipList \<Rightarrow> 'k \<Rightarrow> nat list option
   \<Rightarrow> fault + (nat option \<times> nat list option)" where
  "FindGreatOrEqual fuel cmp s k prev =
     (case prev of
        None \<Rightarrow> FindGreatOrEqual_normal fuel cmp s k prev
      | Some pv \<Rightarrow>
          (case pv of
             [] \<Rightarrow> Inl OutOfBounds
           | x # _ \<Rightarrow>
               (case Node_Next s x 0 of
                  Inl e \<Rightarrow> Inl e
                | Inr next \<Rightarrow>
                    if \<not> KeyIsAfterNode cmp s k next
                       \<and> (x = head \<or> KeyIsAfterNode cmp s k (Some x))
                    then Inr (next, prev)
                    else FindGreatOrEqual_normal fuel cmp s k prev)))"

fun Insert_raise_loop :: "nat \<Rightarrow> int \<Rightarrow> nat list \<Rightarrow> nat list" where
  "Insert_raise_loop 0 i pv = pv"
| "Insert_raise_loop (Suc todo) i pv = Insert_raise_loop todo (i + 1) (pv[nat i := head])"

text \<open>
  The linking loop of \<open>Insert\<close>. Its first statement is
  \<^verbatim>\<open>x->NoBarrier_Next(prev_[i]->NoBarrier_Next(i));\<close>
  which calls the getter \<open>NoBarrier_Next\<close> twice and the setter \<open>NoBarrier_SetNext\<close> not
  at all. The inner call loads the forward pointer of the predecessor at level \<open>i\<close>. The
  outer call passes that \<open>Node*\<close> where the parameter is an \<open>int\<close>: C++ has no such
  implicit conversion, so the statement is ill-formed once \<open>Insert\<close> is instantiated, and
  only a build that lets the conversion pass (\<open>-fpermissive\<close>) compiles it. The model is of
  that build: the pointer is converted to \<open>int\<close>, a null pointer to 0 and the address of
  node \<open>j\<close> to \<open>addr j\<close>, a parameter; the outer call then runs as any other call of the
  getter on the new node, with its \<open>assert(n >= 0)\<close> and its load of \<open>next_[n]\<close>, and
  the pointer it loads is dropped. Nothing is stored into the new node. The second
  statement is the store \<open>prev_[i]->SetNext(i, x)\<close>.
\<close>

definition ptr_to_int :: "(nat \<Rightarrow> int) \<Rightarrow> nat option \<Rightarrow> int" where
  "ptr_to_int addr p = (case p of None \<Rightarrow> 0 | Some j \<Rightarrow> addr j)"

fun Insert_link_loop ::
  "(nat \<Rightarrow> int) \<Rightarrow> nat \<Rightarrow> int \<Rightarrow> nat \<Rightarrow> ('k, 'r) SkipList \<Rightarrow> fault + ('k, 'r) SkipList" where
  "Insert_link_loop addr 0 i x s = Inr s"
| "Insert_link_loop addr (Suc todo) i x s =
     (if \<not> nat i < length (prev_m s) then Inl OutOfBounds
      else
        (case Node_Next s (prev_m s ! nat i) i of
           Inl e \<Rightarrow> Inl e
         | Inr loaded \<Rightarrow>
             (case Node_Next s x (ptr_to_int addr loaded) of
                Inl e \<Rightarrow> Inl e
              | Inr dropped \<Rightarrow>
                  (case Node_SetNext s (prev_m s ! nat i) i (Some x) of
                     Inl e \<Rightarrow> Inl e
                   | Inr s' \<Rightarrow> Insert_link_loop addr todo (i + 1) x s'))))"

definition Insert ::
  "nat \<Rightarrow> ('k \<Rightarrow> 'k \<Rightarrow> int) \<Rightarrow> ('r \<Rightarrow> u32 \<times> 'r) \<Rightarrow> (nat \<Rightarrow> int) \<Rightarrow> ('k, 'r) SkipList
   \<Rightarrow> 'k \<Rightarrow> fault + ('k, 'r) SkipList" where
  "Insert fuel cmp Next addr s k =
     (case FindGreatOrEqual fuel cmp s k (Some (prev_m s)) of
        Inl e \<Rightarrow> Inl e
      | Inr (found, prev') \<Rightarrow>
          (let s1 = s\<lparr>prev_m := (case prev' of Some pv \<Rightarrow> pv | None \<Rightarrow> prev_m s)\<rparr> in
           case RandomHeight Next (rnd_m s1) of
             Inl e \<Rightarrow> Inl e
           | Inr (height, rnd') \<Rightarrow>
               (let s2 = s1\<lparr>rnd_m := rnd'\<rparr>;
                    s3 = (if height > GetMaxHeight s2
                          then s2\<lparr>prev_m := Insert_raise_loop (nat (height - GetMaxHeight s2))
                                              (GetMaxHeight s2) (prev_m s2),
                                 max_height_m := height\<rparr>
                          else s2)
                in case NewNode s3 k height of
                     (x, s4) \<Rightarrow>
                       (case Insert_link_loop addr (nat height) 0 x s4 of
                          Inl e \<Rightarrow> Inl e
                        | Inr s5 \<Rightarrow>
                            if prev_m s5 = [] then Inl OutOfBounds
                            else Inr (s5\<lparr>prev_m := (prev_m s5)[0 := x]\<rparr>)))))"

definition Contains ::
  "nat \<Rightarrow> ('k \<Rightarrow> 'k \<Rightarrow> int) \<Rightarrow> ('k, 'r) SkipList \<Rightarrow> 'k \<Rightarrow> fault + bool" where
  "Contains fuel cmp s k =
     (case FindGreatOrEqual fuel cmp s k None of
        Inl e \<Rightarrow> Inl e
      | Inr (x, prev') \<Rightarrow>
          (case x of
             None \<Rightarrow> Inr False
           | Some n \<Rightarrow> Inr (Equal cmp k (key (nodes s ! n)))))"

text \<open>The comparator of integer keys, and a generator that draws the same number forever.\<close>

definition int_cmp :: "int \<Rightarrow> int \<Rightarrow> int" where
  "int_cmp a b = (if a < b then - 1 else if a = b then 0 else 1)"

definition const_draw :: "u32 \<Rightarrow> unit \<Rightarrow> u32 \<times> unit" where
  "const_draw r rnd = (r, rnd)"

declare EncodeVarint64.simps [simp del]
declare VarintLength_loop.simps [simp del]
declare RandomHeight_loop.simps [simp del]
declare BitStreamPutInt_loop.simps [simp del]
declare BitStreamGetInt_loop.simps [simp del]

section \<open>Lemmas on the encoding primitives\<close>

lemma bit_127_int: "bit (127 :: int) n \<longleftrightarrow> n < 7"
proof -
  have "(127 :: int) = mask 7" by (simp add: mask_eq_exp_minus_1)
  then show ?thesis by (simp only: bit_mask_iff) simp
qed

lemma bit_128_int: "bit (128 :: int) n \<longleftrightarrow> n = 7"
proof -
  have "(128 :: int) = 2 ^ 7" by simp
  then show ?thesis by (simp only: bit_exp_iff) auto
qed

lemma word_less_exp_bit:
  fixes x :: "'a::len word"
  assumes "x < 2 ^ k" and "bit x n"
  shows "n < k"
proof -
  have "x AND mask k = x" using assms(1) by (rule less_mask_eq)
  then have "bit (x AND mask k) n" using assms(2) by simp
  then show ?thesis by (simp add: bit_and_iff bit_mask_iff)
qed

lemma cont_byte32: "(ucast (ucast (x OR 128 :: u32) :: u8) :: u32) AND 128 \<noteq> 0"
proof -
  have "bit ((ucast (ucast (x OR 128 :: u32) :: u8) :: u32) AND 128) 7"
    by (simp add: bit_simps bit_128_int)
  then show ?thesis by auto
qed

lemma cont_byte32_low:
  "(ucast (ucast (x OR 128 :: u32) :: u8) :: u32) AND 127 = take_bit 7 x"
  by (rule bit_word_eqI) (auto simp add: bit_simps bit_127_int bit_128_int)

lemma last_byte32:
  assumes "x < (128 :: u32)"
  shows "(ucast (ucast x :: u8) :: u32) = x"
proof -
  have "x < 2 ^ 7" using assms by simp
  then have h: "\<And>n. bit x n \<Longrightarrow> n < 7"
    by (rule word_less_exp_bit)
  show ?thesis
    by (intro bit_word_eqI) (auto simp add: bit_simps dest: h)
qed

lemma last_byte32_and:
  assumes "x < (128 :: u32)"
  shows "x AND 128 = 0"
proof -
  have "x < 2 ^ 7" using assms by simp
  then have h: "\<And>n. bit x n \<Longrightarrow> n < 7"
    by (rule word_less_exp_bit)
  show ?thesis
    by (intro bit_word_eqI) (auto simp add: bit_simps bit_128_int dest: h)
qed

lemma unat_drop_bit_div:
  fixes v :: "'a::len word"
  shows "unat (drop_bit k v) = unat v div 2 ^ k"
  unfolding unat_drop_bit_eq by (simp add: drop_bit_eq_div)

lemma drop_bit_less_128:
  fixes v :: u32
  assumes "unat v < 2 ^ (k + 7)"
  shows "drop_bit k v < 128"
proof -
  have "unat v div 2 ^ k < 2 ^ 7"
    using assms by (simp add: less_mult_imp_div_less power_add)
  then have "unat (drop_bit k v) < 128"
    by (simp only: unat_drop_bit_div) simp
  then show ?thesis
    by (simp add: word_less_nat_alt)
qed

lemma drop_bit_28_less_128: "drop_bit 28 (v :: u32) < 128"
proof -
  have "unat v < 2 ^ 32" using unsigned_less [of v] by simp
  then have "unat v div 2 ^ 28 < 2 ^ 4"
    by (simp add: less_mult_imp_div_less)
  then have "unat (drop_bit 28 v) < 128"
    by (simp only: unat_drop_bit_div) simp
  then show ?thesis
    by (simp add: word_less_nat_alt)
qed

lemma dec_tail:
  fixes v :: "'a::len word"
  shows "take_bit k v OR push_bit k (drop_bit k v) = v"
proof (rule bit_word_eqI)
  fix n assume "n < LENGTH('a)"
  then show "bit (take_bit k v OR push_bit k (drop_bit k v)) n = bit v n"
    by (cases "n < k") (auto simp add: bit_simps)
qed

lemma take_bit_step:
  fixes v :: "'a::len word"
  shows "take_bit k v OR push_bit k (take_bit 7 (drop_bit k v)) = take_bit (k + 7) v"
proof (rule bit_word_eqI)
  fix n assume "n < LENGTH('a)"
  then show "bit (take_bit k v OR push_bit k (take_bit 7 (drop_bit k v))) n = bit (take_bit (k + 7) v) n"
    by (cases "n < k") (auto simp add: bit_simps)
qed

lemma GetVarint32Ptr_EncodeVarint32:
  "GetVarint32Ptr (EncodeVarint32 v @ rest) val = (Some rest, v)"
proof -
  consider "v < 128" | "\<not> v < 128" "unat v < 2 ^ 14" | "\<not> unat v < 2 ^ 14" "unat v < 2 ^ 21"
    | "\<not> unat v < 2 ^ 21" "unat v < 2 ^ 28" | "\<not> unat v < 2 ^ 28"
    by blast
  then show ?thesis
  proof cases
    case 1
    then show ?thesis
      by (simp add: EncodeVarint32_def GetVarint32Ptr_def last_byte32 last_byte32_and)
  next
    case 2
    then show ?thesis
      using drop_bit_less_128 [of v 7] take_bit_step [of 0 v] dec_tail [of 7 v]
      by (simp add: EncodeVarint32_def GetVarint32Ptr_def GetVarint32PtrFallback_def
          word_less_nat_alt last_byte32 last_byte32_and cont_byte32 cont_byte32_low)
  next
    case 3
    then show ?thesis
      using drop_bit_less_128 [of v 14] take_bit_step [of 7 v] dec_tail [of 14 v]
      by (simp add: EncodeVarint32_def GetVarint32Ptr_def GetVarint32PtrFallback_def
          word_less_nat_alt last_byte32 last_byte32_and cont_byte32 cont_byte32_low)
  next
    case 4
    then show ?thesis
      using drop_bit_less_128 [of v 21] take_bit_step [of 7 v] take_bit_step [of 14 v]
        dec_tail [of 21 v]
      by (simp add: EncodeVarint32_def GetVarint32Ptr_def GetVarint32PtrFallback_def
          word_less_nat_alt last_byte32 last_byte32_and cont_byte32 cont_byte32_low)
  next
    case 5
    then show ?thesis
      using drop_bit_28_less_128 [of v] take_bit_step [of 7 v] take_bit_step [of 14 v]
        take_bit_step [of 21 v] dec_tail [of 28 v]
      by (simp add: EncodeVarint32_def GetVarint32Ptr_def GetVarint32PtrFallback_def
          word_less_nat_alt last_byte32 last_byte32_and cont_byte32 cont_byte32_low)
  qed
qed

lemma length_EncodeVarint32: "length (EncodeVarint32 v) \<le> 5"
  by (simp add: EncodeVarint32_def)

lemma EncodeVarint32_300: "EncodeVarint32 300 = [0xAC, 0x02]"
  by (simp add: EncodeVarint32_def)

lemma EncodeVarint64_cont:
  "128 \<le> v \<Longrightarrow> EncodeVarint64 v = ucast (v AND 127 OR 128) # EncodeVarint64 (drop_bit 7 v)"
  by (subst EncodeVarint64.simps) simp

lemma EncodeVarint64_last: "\<not> 128 \<le> v \<Longrightarrow> EncodeVarint64 v = [ucast v]"
  by (subst EncodeVarint64.simps) simp

lemma cont_byte64: "(ucast (ucast ((x AND 127) OR 128 :: u64) :: u8) :: u64) AND 128 \<noteq> 0"
proof -
  have "bit ((ucast (ucast ((x AND 127) OR 128 :: u64) :: u8) :: u64) AND 128) 7"
    by (simp add: bit_simps bit_128_int)
  then show ?thesis by auto
qed

lemma cont_byte64_low:
  "(ucast (ucast ((x AND 127) OR 128 :: u64) :: u8) :: u64) AND 127 = take_bit 7 x"
  by (rule bit_word_eqI) (auto simp add: bit_simps bit_127_int bit_128_int)

lemma last_byte64:
  assumes "\<not> 128 \<le> (x :: u64)"
  shows "(ucast (ucast x :: u8) :: u64) = x" and "x AND 128 = 0"
proof -
  have "x < 2 ^ 7" using assms by simp
  then have h: "\<And>n. bit x n \<Longrightarrow> n < 7"
    by (rule word_less_exp_bit)
  show "(ucast (ucast x :: u8) :: u64) = x"
    by (intro bit_word_eqI) (auto simp add: bit_simps dest: h)
  show "x AND 128 = 0"
    by (intro bit_word_eqI) (auto simp add: bit_simps bit_128_int dest: h)
qed

lemma drop_bit_ge_128_shift:
  fixes v :: u64
  assumes "128 \<le> drop_bit k v"
  shows "k + 7 < 64"
proof (rule ccontr)
  assume "\<not> k + 7 < 64"
  then have k: "57 \<le> k" by simp
  have "unat v < 2 ^ 64" using unsigned_less [of v] by simp
  also have "\<dots> = 2 ^ 7 * (2 ^ 57 :: nat)" by simp
  also have "\<dots> \<le> 2 ^ 7 * (2 ^ k :: nat)"
    using k by (intro mult_left_mono power_increasing) simp_all
  finally have "unat v div 2 ^ k < 2 ^ 7"
    by (rule less_mult_imp_div_less)
  then have "unat (drop_bit k v) < 128"
    by (simp only: unat_drop_bit_div) simp
  with assms show False
    by (simp add: word_le_nat_alt)
qed

lemma GetVarint64Ptr_loop_EncodeVarint64:
  "shift \<le> 63 \<Longrightarrow> w = drop_bit shift v \<Longrightarrow>
   GetVarint64Ptr_loop shift (take_bit shift v) (EncodeVarint64 w @ rest) val = (Some rest, v)"
proof (induction w arbitrary: shift rule: EncodeVarint64.induct)
  case (1 w)
  show ?case
  proof (cases "128 \<le> w")
    case True
    then have s: "shift + 7 \<le> 63"
      using drop_bit_ge_128_shift [of shift v] 1(3) by simp
    have d: "drop_bit 7 w = drop_bit (shift + 7) v"
      using 1(3) by (simp add: add.commute)
    have ih: "GetVarint64Ptr_loop (shift + 7) (take_bit (shift + 7) v)
            (EncodeVarint64 (drop_bit 7 w) @ rest) val = (Some rest, v)"
      using 1(1) [OF True s d] .
    have e: "EncodeVarint64 w = ucast (w AND 127 OR 128) # EncodeVarint64 (drop_bit 7 w)"
      using True by (rule EncodeVarint64_cont)
    have t: "take_bit shift v OR push_bit shift (take_bit 7 w) = take_bit (shift + 7) v"
      using take_bit_step [of shift v] 1(3) by simp
    show ?thesis
      unfolding e using ih 1(2) t by (simp add: cont_byte64 cont_byte64_low)
  next
    case False
    have e: "EncodeVarint64 w = [ucast w]"
      using False by (rule EncodeVarint64_last)
    have t: "take_bit shift v OR push_bit shift w = v"
      using dec_tail [of shift v] 1(3) by simp
    show ?thesis
      unfolding e using 1(2) t False by (simp add: last_byte64)
  qed
qed

lemma GetVarint64Ptr_EncodeVarint64:
  "GetVarint64Ptr (EncodeVarint64 v @ rest) val = (Some rest, v)"
  using GetVarint64Ptr_loop_EncodeVarint64 [of 0 v v rest val]
  by (simp add: GetVarint64Ptr_def)

lemma VarintLength_loop_length:
  "VarintLength_loop v len = len + int (length (EncodeVarint64 v)) - 1"
proof (induction v len rule: VarintLength_loop.induct)
  case (1 v len)
  show ?case
  proof (cases "128 \<le> v")
    case True
    then show ?thesis
      using 1 by (subst VarintLength_loop.simps) (simp add: EncodeVarint64_cont)
  next
    case False
    then show ?thesis
      by (subst VarintLength_loop.simps) (simp add: EncodeVarint64_last)
  qed
qed

lemma VarintLength_EncodeVarint64: "int (length (EncodeVarint64 v)) = VarintLength v"
  by (simp add: VarintLength_def VarintLength_loop_length)

lemma length_EncodeVarint64_bound:
  "unat v < 2 ^ (7 * n) \<Longrightarrow> 0 < n \<Longrightarrow> length (EncodeVarint64 v) \<le> n"
proof (induction n arbitrary: v)
  case 0
  then show ?case by simp
next
  case (Suc n)
  show ?case
  proof (cases "128 \<le> v")
    case False
    then show ?thesis by (simp add: EncodeVarint64_last)
  next
    case True
    have "unat v < 2 ^ 7 * 2 ^ (7 * n)"
      using Suc.prems(1) by (simp add: power_add)
    then have d: "unat (drop_bit 7 v) < 2 ^ (7 * n)"
      unfolding unat_drop_bit_div by (simp add: less_mult_imp_div_less mult.commute)
    have "0 < n"
    proof (rule ccontr)
      assume "\<not> 0 < n"
      then have "unat v < 2 ^ 7" using Suc.prems(1) by simp
      with True show False by (simp add: word_le_nat_alt)
    qed
    then have "length (EncodeVarint64 (drop_bit 7 v)) \<le> n"
      using Suc.IH [OF d] by simp
    then show ?thesis
      using True by (simp add: EncodeVarint64_cont)
  qed
qed

lemma length_EncodeVarint64: "length (EncodeVarint64 v) \<le> 10"
proof -
  have "unat v < 2 ^ 64" using unsigned_less [of v] by simp
  also have "\<dots> \<le> (2 :: nat) ^ (7 * 10)" by simp
  finally show ?thesis
    by (rule length_EncodeVarint64_bound) simp
qed

lemma length_EncodeVarint64_exact:
  "n = 0 \<or> 2 ^ (7 * n) \<le> unat v \<Longrightarrow> unat v < 2 ^ (7 * Suc n) \<Longrightarrow>
   length (EncodeVarint64 v) = Suc n"
proof (induction n arbitrary: v)
  case 0
  then have "\<not> 128 \<le> v" by (simp add: word_le_nat_alt)
  then show ?case by (simp add: EncodeVarint64_last)
next
  case (Suc n)
  have lo: "2 ^ 7 * 2 ^ (7 * n) \<le> unat v"
    using Suc.prems(1) by (simp add: power_add)
  have "(1 :: nat) \<le> 2 ^ (7 * n)" by simp
  then have "2 ^ 7 * (1 :: nat) \<le> 2 ^ 7 * 2 ^ (7 * n)"
    by (rule mult_left_mono) simp
  then have "2 ^ 7 * (1 :: nat) \<le> unat v"
    using lo by (rule order_trans)
  then have ge: "128 \<le> v" by (simp add: word_le_nat_alt)
  have "unat v < 2 ^ 7 * 2 ^ (7 * Suc n)"
    using Suc.prems(2) by (simp add: power_add)
  then have hi: "unat (drop_bit 7 v) < 2 ^ (7 * Suc n)"
    unfolding unat_drop_bit_div by (simp add: less_mult_imp_div_less mult.commute)
  have "2 ^ (7 * n) * 2 ^ 7 \<le> unat v"
    using lo by (simp add: mult.commute)
  then have "2 ^ (7 * n) \<le> unat v div 2 ^ 7"
    by (simp add: less_eq_div_iff_mult_less_eq)
  then have "2 ^ (7 * n) \<le> unat (drop_bit 7 v)"
    unfolding unat_drop_bit_div .
  then have "length (EncodeVarint64 (drop_bit 7 v)) = Suc n"
    using Suc.IH [OF _ hi] by simp
  then show ?case
    using ge by (simp add: EncodeVarint64_cont)
qed

lemma unat_u32_bound: "unat (v :: u32) < 2 ^ 32"
  using unsigned_less [of v, where ?'a = nat] by simp

lemma unat_u64_bound: "unat (v :: u64) < 2 ^ 64"
  using unsigned_less [of v, where ?'a = nat] by simp

lemma unat_ucast_u32_u64: "unat (ucast (v :: u32) :: u64) = unat v"
proof -
  have "unat v < 2 ^ 64"
    using unat_u32_bound [of v] by simp
  then show ?thesis
    by (simp add: unsigned_ucast_eq take_bit_nat_eq_self)
qed

lemma length_EncodeVarint32_VarintLength:
  "int (length (EncodeVarint32 v)) = VarintLength (ucast v)"
proof -
  have b: "unat v < 2 ^ (7 * Suc 4)"
    using unat_u32_bound [of v] by simp
  consider "unat v < 2 ^ 7" | "2 ^ 7 \<le> unat v" "unat v < 2 ^ 14"
    | "2 ^ 14 \<le> unat v" "unat v < 2 ^ 21"
    | "2 ^ 21 \<le> unat v" "unat v < 2 ^ 28" | "2 ^ 28 \<le> unat v"
    by linarith
  then show ?thesis
  proof cases
    case 1
    then show ?thesis
      using length_EncodeVarint64_exact [of 0 "ucast v"]
      by (simp add: EncodeVarint32_def word_less_nat_alt unat_ucast_u32_u64
          flip: VarintLength_EncodeVarint64)
  next
    case 2
    then show ?thesis
      using length_EncodeVarint64_exact [of 1 "ucast v"]
      by (simp add: EncodeVarint32_def word_less_nat_alt unat_ucast_u32_u64
          flip: VarintLength_EncodeVarint64)
  next
    case 3
    then show ?thesis
      using length_EncodeVarint64_exact [of 2 "ucast v"]
      by (simp add: EncodeVarint32_def word_less_nat_alt unat_ucast_u32_u64
          flip: VarintLength_EncodeVarint64)
  next
    case 4
    then show ?thesis
      using length_EncodeVarint64_exact [of 3 "ucast v"]
      by (simp add: EncodeVarint32_def word_less_nat_alt unat_ucast_u32_u64
          flip: VarintLength_EncodeVarint64)
  next
    case 5
    then show ?thesis
      using length_EncodeVarint64_exact [of 4 "ucast v"] b
      by (simp add: EncodeVarint32_def word_less_nat_alt unat_ucast_u32_u64
          flip: VarintLength_EncodeVarint64)
  qed
qed

lemma GetVarint32PtrFallback_loop_None:
  "fst (GetVarint32PtrFallback_loop shift result p val) = None \<Longrightarrow>
   snd (GetVarint32PtrFallback_loop shift result p val) = val"
  by (induction shift result p val rule: GetVarint32PtrFallback_loop.induct)
    (auto simp add: Let_def split: if_splits)

lemma GetVarint32Ptr_None:
  "GetVarint32Ptr p val = (None, val') \<Longrightarrow> val' = val"
  using GetVarint32PtrFallback_loop_None [of 0 0 p val]
  by (auto simp add: GetVarint32Ptr_def GetVarint32PtrFallback_def Let_def
      split: list.splits if_splits)

lemma GetVarint32_False:
  "GetVarint32 input val = (False, input', val') \<Longrightarrow> input' = input \<and> val' = val"
  by (auto simp add: GetVarint32_def split: prod.splits option.splits
      dest: GetVarint32Ptr_None)

lemma GetVarint32_True:
  "GetVarint32 input val = (True, input', val') \<Longrightarrow> GetVarint32Ptr input val = (Some input', val')"
  by (auto simp add: GetVarint32_def split: prod.splits option.splits)

lemma GetVarint64Ptr_loop_None:
  "fst (GetVarint64Ptr_loop shift result p val) = None \<Longrightarrow>
   snd (GetVarint64Ptr_loop shift result p val) = val"
  by (induction shift result p val rule: GetVarint64Ptr_loop.induct)
    (auto simp add: Let_def split: if_splits)

lemma GetVarint64_False:
  "GetVarint64 input val = (False, input', val') \<Longrightarrow> input' = input \<and> val' = val"
  using GetVarint64Ptr_loop_None [of 0 0 input val]
  by (auto simp add: GetVarint64_def GetVarint64Ptr_def split: prod.splits option.splits)

lemma GetLengthPrefixedSlice_False:
  assumes "GetLengthPrefixedSlice input result = (False, input', result')"
  shows "result' = result"
    and "fst (GetVarint32 input 0) = False \<Longrightarrow> input' = input"
    and "fst (GetVarint32 input 0) = True \<Longrightarrow> input' = fst (snd (GetVarint32 input 0))"
  using assms
  by (auto simp add: GetLengthPrefixedSlice_def split: prod.splits if_splits
      dest: GetVarint32_False)

lemma cont_bit32: "(ucast (c :: u8) :: u32) AND 128 \<noteq> 0 \<longleftrightarrow> bit c 7"
proof -
  have "(ucast c :: u32) AND 2 ^ 7 = 0 \<longleftrightarrow> \<not> bit (ucast c :: u32) 7"
    by (rule and_exp_eq_0_iff_not_bit)
  then show ?thesis by (simp add: bit_simps)
qed

lemma cont_bit64: "(ucast (c :: u8) :: u64) AND 128 \<noteq> 0 \<longleftrightarrow> bit c 7"
proof -
  have "(ucast c :: u64) AND 2 ^ 7 = 0 \<longleftrightarrow> \<not> bit (ucast c :: u64) 7"
    by (rule and_exp_eq_0_iff_not_bit)
  then show ?thesis by (simp add: bit_simps)
qed

lemma GetVarint32PtrFallback_loop_fails_iff:
  "fst (GetVarint32PtrFallback_loop (7 * j) result p val) = None \<longleftrightarrow>
   (\<forall>b \<in> set (take (5 - j) p). bit b 7)"
proof (induction p arbitrary: j result)
  case Nil
  then show ?case by simp
next
  case (Cons c p)
  show ?case
  proof (cases "j \<le> 4")
    case True
    then have "5 - j = Suc (5 - Suc j)"
      by simp
    then have t: "take (5 - j) (c # p) = c # take (5 - Suc j) p"
      by (simp only: take_Suc_Cons)
    have s: "7 * j + 7 = 7 * Suc j" by simp
    show ?thesis
      using True Cons.IH [of "Suc j"]
      by (simp only: GetVarint32PtrFallback_loop.simps t s Let_def cont_bit32) auto
  next
    case False
    then show ?thesis by simp
  qed
qed

lemma GetVarint32Ptr_fails_iff:
  "fst (GetVarint32Ptr p val) = None \<longleftrightarrow> (\<forall>b \<in> set (take 5 p). bit b 7)"
proof (cases p)
  case Nil
  then show ?thesis by (simp add: GetVarint32Ptr_def GetVarint32PtrFallback_def)
next
  case (Cons c q)
  show ?thesis
  proof (cases "bit c 7")
    case True
    then show ?thesis
      using GetVarint32PtrFallback_loop_fails_iff [of 0 0 p val] Cons cont_bit32 [of c]
      by (simp add: GetVarint32Ptr_def GetVarint32PtrFallback_def Let_def)
  next
    case False
    then show ?thesis
      using Cons cont_bit32 [of c]
      by (simp add: GetVarint32Ptr_def Let_def)
  qed
qed

lemma GetVarint32_fails_iff:
  "GetVarint32 input val = (False, input, val) \<longleftrightarrow> (\<forall>b \<in> set (take 5 input). bit b 7)"
  using GetVarint32Ptr_fails_iff [of input val] GetVarint32Ptr_None [of input val]
  by (auto simp add: GetVarint32_def split: prod.splits option.splits)

lemma GetVarint64Ptr_loop_fails_iff:
  "fst (GetVarint64Ptr_loop (7 * j) result p val) = None \<longleftrightarrow>
   (\<forall>b \<in> set (take (10 - j) p). bit b 7)"
proof (induction p arbitrary: j result)
  case Nil
  then show ?case by simp
next
  case (Cons c p)
  show ?case
  proof (cases "j \<le> 9")
    case True
    then have "10 - j = Suc (10 - Suc j)"
      by simp
    then have t: "take (10 - j) (c # p) = c # take (10 - Suc j) p"
      by (simp only: take_Suc_Cons)
    have s: "7 * j + 7 = 7 * Suc j" by simp
    show ?thesis
      using True Cons.IH [of "Suc j"]
      by (simp only: GetVarint64Ptr_loop.simps t s Let_def cont_bit64) auto
  next
    case False
    then show ?thesis by simp
  qed
qed

lemma GetVarint64_fails_iff:
  "GetVarint64 input val = (False, input, val) \<longleftrightarrow> (\<forall>b \<in> set (take 10 input). bit b 7)"
  using GetVarint64Ptr_loop_fails_iff [of 0 0 input val] GetVarint64Ptr_loop_None [of 0 0 input val]
  by (auto simp add: GetVarint64_def GetVarint64Ptr_def split: prod.splits option.splits)

lemma GetLengthPrefixedSlice_cases:
  "GetLengthPrefixedSlice input result =
     (if \<forall>b \<in> set (take 5 input). bit b 7 then (False, input, result)
      else if length (fst (snd (GetVarint32 input 0))) < unat (snd (snd (GetVarint32 input 0)))
      then (False, fst (snd (GetVarint32 input 0)), result)
      else (True, drop (unat (snd (snd (GetVarint32 input 0)))) (fst (snd (GetVarint32 input 0))),
                  take (unat (snd (snd (GetVarint32 input 0)))) (fst (snd (GetVarint32 input 0)))))"
  using GetVarint32_fails_iff [of input 0] GetVarint32_False [of input 0]
  by (auto simp add: GetLengthPrefixedSlice_def split: prod.splits)

section \<open>Lemmas on the bit-packed integers\<close>

lemma bit_bit_mask: "n \<le> 8 \<Longrightarrow> bit (bit_mask n) j \<longleftrightarrow> j < n"
proof -
  assume n: "n \<le> 8"
  have "(push_bit n 1 :: u32) - 1 = mask n"
    by (simp add: mask_eq_exp_minus_1)
  then have "bit_mask n = ucast (mask n :: u32)"
    by (simp add: bit_mask_def)
  then show ?thesis
    using n by (auto simp add: bit_simps)
qed

lemma bit_BitStreamGetInt_chunk:
  assumes "bo + n \<le> 8"
  shows "bit (BitStreamGetInt_chunk byte bo (bit_mask n)) k \<longleftrightarrow> k < n \<and> bit byte (bo + k)"
proof -
  have n: "n \<le> 8" using assms by simp
  show ?thesis
    using assms
    by (auto simp add: BitStreamGetInt_chunk_def bit_simps bit_bit_mask [OF n])
qed

lemma bit_BitStreamPutInt_byte:
  assumes "bo + n \<le> 8" and "j < 8"
  shows "bit (BitStreamPutInt_byte old bo (bit_mask n) val) j \<longleftrightarrow>
         (if bo \<le> j \<and> j < bo + n then bit val (j - bo) else bit old j)"
proof -
  have n: "n \<le> 8" using assms by simp
  define a :: u64 where
    "a = scast ((ucast old :: u32) AND NOT (push_bit bo (ucast (bit_mask n) :: u32)))"
  define b :: u64 where "b = push_bit bo (val AND ucast (bit_mask n))"
  have ba: "bit a k \<longleftrightarrow> k < 8 \<and> bit old k \<and> \<not> (bo \<le> k \<and> k < bo + n)" for k
  proof (cases "k < 8")
    case True
    then have "min 31 k = k" by simp
    then show ?thesis
      using assms(1) True
      by (auto simp add: a_def bit_simps bit_bit_mask [OF n])
  next
    case False
    then have "\<not> bit old (min 31 k)"
      using bit_imp_le_length [of old "min 31 k"] by auto
    then show ?thesis
      using False by (simp add: a_def bit_simps)
  qed
  have bb: "bit b k \<longleftrightarrow> k < 64 \<and> bo \<le> k \<and> k < bo + n \<and> bit val (k - bo)" for k
    using assms(1)
    by (auto simp add: b_def bit_simps bit_bit_mask [OF n])
  have "a + b = a OR b"
    by (rule disjunctive_add) (auto simp add: ba bb)
  then have "BitStreamPutInt_byte old bo (bit_mask n) val = ucast (a OR b)"
    by (simp add: BitStreamPutInt_byte_def a_def b_def)
  then show ?thesis
    using assms by (auto simp add: bit_simps ba bb)
qed

lemma bits_to_get_small:
  assumes "bo < 8"
  shows "bits_to_get bits bo = min bits (8 - bo)"
proof -
  define M :: nat where "M = 2 ^ 64"
  have M: "8 < M" by (simp add: M_def)
  have "8 + M - bo = M + (8 - bo)"
    using assms by simp
  moreover have "(8 - bo) mod M = 8 - bo"
    using M by (intro mod_less) linarith
  ultimately have "(8 + M - bo) mod M = 8 - bo"
    by simp
  then show ?thesis
    by (simp add: bits_to_get_def M_def)
qed

lemma div8_iff: "i div 8 = b \<longleftrightarrow> 8 * b \<le> i \<and> i < 8 * b + 8" for i b :: nat
  by arith

lemma mod8_eq: "i div 8 = b \<Longrightarrow> i mod 8 = i - 8 * b" for i b :: nat
  by arith

lemma buffer_bit_update:
  assumes "b < length buf"
  shows "buffer_bit (buf[b := x]) i =
         (if 8 * b \<le> i \<and> i < 8 * b + 8 then bit x (i - 8 * b) else buffer_bit buf i)"
proof (cases "i div 8 = b")
  case True
  then show ?thesis
    using assms mod8_eq [OF True] div8_iff [of i b] by (simp add: buffer_bit_def)
next
  case False
  then have "\<not> (8 * b \<le> i \<and> i < 8 * b + 8)"
    using div8_iff [of i b] by blast
  then show ?thesis
    using False by (auto simp add: buffer_bit_def)
qed

lemma buffer_bit_byte: "8 * b \<le> i \<Longrightarrow> i < 8 * b + 8 \<Longrightarrow> bit (buf ! b) (i - 8 * b) = buffer_bit buf i"
  using div8_iff [of i b] mod8_eq [of i b] by (simp add: buffer_bit_def)

lemma BitStreamPutInt_loop_bits:
  "bo < 8 \<Longrightarrow> 8 * byo + bo + bits \<le> 8 * length ptr \<Longrightarrow>
   \<exists>ptr'. BitStreamPutInt_loop ptr byo bo bits val = Inr ptr' \<and> length ptr' = length ptr \<and>
     (\<forall>i. buffer_bit ptr' i =
        (if 8 * byo + bo \<le> i \<and> i < 8 * byo + bo + bits
         then bit val (i - (8 * byo + bo)) else buffer_bit ptr i))"
proof (induction ptr byo bo bits val rule: BitStreamPutInt_loop.induct)
  case (1 ptr byo bo bits val)
  show ?case
  proof (cases "bits > 0")
    case False
    then show ?thesis
      by (subst BitStreamPutInt_loop.simps) auto
  next
    case True
    define n where "n = bits_to_get bits bo"
    have n: "n = min bits (8 - bo)"
      unfolding n_def using 1(2) by (rule bits_to_get_small)
    have n8: "bo + n \<le> 8" and n0: "0 < n" and nb: "n \<le> bits"
      using n 1(2) True by simp_all
    have inb: "byo < length ptr"
      using 1(3) True by simp
    define x where "x = BitStreamPutInt_byte (ptr ! byo) bo (bit_mask n) val"
    define ptr1 where "ptr1 = ptr[byo := x]"
    have bound: "8 * (byo + 1) + 0 + (bits - n) \<le> 8 * length ptr1"
      using 1(3) n 1(2) inb by (auto simp add: ptr1_def min_def split: if_splits)
    have "\<exists>ptr'. BitStreamPutInt_loop ptr1 (byo + 1) 0 (bits - n) (drop_bit n val) = Inr ptr' \<and>
            length ptr' = length ptr1 \<and>
            (\<forall>i. buffer_bit ptr' i =
               (if 8 * (byo + 1) + 0 \<le> i \<and> i < 8 * (byo + 1) + 0 + (bits - n)
                then bit (drop_bit n val) (i - (8 * (byo + 1) + 0)) else buffer_bit ptr1 i))"
      using 1(1) True inb bound
      unfolding ptr1_def x_def n_def by simp
    then obtain ptr' where
      run: "BitStreamPutInt_loop ptr1 (byo + 1) 0 (bits - n) (drop_bit n val) = Inr ptr'"
      and len: "length ptr' = length ptr1"
      and ih: "\<And>i. buffer_bit ptr' i =
               (if 8 * (byo + 1) \<le> i \<and> i < 8 * (byo + 1) + (bits - n)
                then bit (drop_bit n val) (i - 8 * (byo + 1)) else buffer_bit ptr1 i)"
      by auto
    have unfold: "BitStreamPutInt_loop ptr byo bo bits val = Inr ptr'"
      using True inb run
      by (subst BitStreamPutInt_loop.simps) (simp add: ptr1_def x_def n_def)
    have upd: "\<And>i. buffer_bit ptr1 i =
        (if 8 * byo \<le> i \<and> i < 8 * byo + 8 then bit x (i - 8 * byo) else buffer_bit ptr i)"
      unfolding ptr1_def using inb by (rule buffer_bit_update)
    have xbit: "\<And>j. j < 8 \<Longrightarrow> bit x j \<longleftrightarrow>
        (if bo \<le> j \<and> j < bo + n then bit val (j - bo) else bit (ptr ! byo) j)"
      unfolding x_def using n8 by (rule bit_BitStreamPutInt_byte)
    have "buffer_bit ptr' i =
        (if 8 * byo + bo \<le> i \<and> i < 8 * byo + bo + bits
         then bit val (i - (8 * byo + bo)) else buffer_bit ptr i)" for i
    proof -
      consider "i < 8 * byo" | "8 * byo \<le> i" "i < 8 * byo + 8" | "8 * byo + 8 \<le> i"
        by linarith
      then show ?thesis
      proof cases
        case 1
        then show ?thesis
          using ih [of i] upd [of i] nb by simp
      next
        case 2
        then have j: "i - 8 * byo < 8" by simp
        have "buffer_bit ptr' i = bit x (i - 8 * byo)"
          using ih [of i] upd [of i] 2 nb by simp
        also have "\<dots> = (if bo \<le> i - 8 * byo \<and> i - 8 * byo < bo + n
                         then bit val (i - 8 * byo - bo) else buffer_bit ptr i)"
          using xbit [OF j] buffer_bit_byte [OF 2, of ptr] by simp
        also have "\<dots> = (if 8 * byo + bo \<le> i \<and> i < 8 * byo + bo + bits
                         then bit val (i - (8 * byo + bo)) else buffer_bit ptr i)"
          using 2 n 1(2) by (auto simp add: min_def split: if_splits)
        finally show ?thesis .
      next
        case 3
        show ?thesis
        proof (cases "i < 8 * (byo + 1) + (bits - n)")
          case True
          then have "n < bits" using 3 by simp
          then have n': "n = 8 - bo" using n by simp
          then have idx: "n + (i - 8 * (byo + 1)) = i - (8 * byo + bo)"
            using 3 1(2) by simp
          have "buffer_bit ptr' i = bit (drop_bit n val) (i - 8 * (byo + 1))"
            using ih [of i] 3 True nb by simp
          also have "\<dots> = bit val (i - (8 * byo + bo))"
            using idx by (simp add: bit_drop_bit_eq)
          finally show ?thesis
            using 3 True n' 1(2) by auto
        next
          case False
          then have "buffer_bit ptr' i = buffer_bit ptr i"
            using ih [of i] upd [of i] 3 nb by simp
          moreover have "\<not> i < 8 * byo + bo + bits"
            using False 3 n 1(2) by (auto simp add: min_def split: if_splits)
          ultimately show ?thesis by simp
        qed
      qed
    qed
    then show ?thesis
      using unfold len by (simp add: ptr1_def)
  qed
qed

lemma BitStreamGetInt_loop_bits:
  "bo < 8 \<Longrightarrow> 8 * byo + bo + bits \<le> 8 * length ptr \<Longrightarrow> shift + bits \<le> 64 \<Longrightarrow>
   (\<forall>k. bit result k \<longrightarrow> k < shift) \<Longrightarrow>
   \<exists>r. BitStreamGetInt_loop ptr byo bo shift bits result = Inr r \<and>
     (\<forall>k. bit r k \<longleftrightarrow>
        (if k < shift then bit result k
         else k < shift + bits \<and> buffer_bit ptr (8 * byo + bo + (k - shift))))"
proof (induction ptr byo bo shift bits result rule: BitStreamGetInt_loop.induct)
  case (1 ptr byo bo shift bits result)
  show ?case
  proof (cases "bits > 0")
    case False
    then show ?thesis
      using 1(5) by (subst BitStreamGetInt_loop.simps) auto
  next
    case True
    define n where "n = bits_to_get bits bo"
    have n: "n = min bits (8 - bo)"
      unfolding n_def using 1(2) by (rule bits_to_get_small)
    have n8: "bo + n \<le> 8" and n0: "0 < n" and nb: "n \<le> bits"
      using n 1(2) True by simp_all
    have inb: "byo < length ptr"
      using 1(3) True by simp
    define chunk where "chunk = BitStreamGetInt_chunk (ptr ! byo) bo (bit_mask n)"
    define result1 where "result1 = result + push_bit shift chunk"
    have cbit: "\<And>k. bit chunk k \<longleftrightarrow> k < n \<and> bit (ptr ! byo) (bo + k)"
      unfolding chunk_def using n8 by (rule bit_BitStreamGetInt_chunk)
    have rbit: "\<And>k. bit result k \<Longrightarrow> k < shift"
      using 1(5) by blast
    have "result + push_bit shift chunk = result OR push_bit shift chunk"
      by (rule disjunctive_add) (auto simp add: bit_simps dest: rbit)
    then have r1bit: "\<And>k. bit result1 k \<longleftrightarrow>
        bit result k \<or> (shift \<le> k \<and> k < 64 \<and> k - shift < n \<and> bit (ptr ! byo) (bo + (k - shift)))"
      by (auto simp add: result1_def bit_simps cbit)
    have b1: "8 * (byo + 1) + 0 + (bits - n) \<le> 8 * length ptr"
      using 1(3) n 1(2) inb by (auto simp add: min_def split: if_splits)
    have b2: "shift + n + (bits - n) \<le> 64"
      using 1(4) nb by simp
    have b3: "\<forall>k. bit result1 k \<longrightarrow> k < shift + n"
      using r1bit rbit by fastforce
    have "\<exists>r. BitStreamGetInt_loop ptr (byo + 1) 0 (shift + n) (bits - n) result1 = Inr r \<and>
        (\<forall>k. bit r k \<longleftrightarrow>
          (if k < shift + n then bit result1 k
           else k < shift + n + (bits - n) \<and>
                buffer_bit ptr (8 * (byo + 1) + 0 + (k - (shift + n)))))"
      using 1(1) True inb b1 b2 b3
      unfolding result1_def chunk_def n_def by simp
    then obtain r where
      run: "BitStreamGetInt_loop ptr (byo + 1) 0 (shift + n) (bits - n) result1 = Inr r"
      and ih: "\<And>k. bit r k \<longleftrightarrow>
          (if k < shift + n then bit result1 k
           else k < shift + bits \<and> buffer_bit ptr (8 * (byo + 1) + (k - (shift + n))))"
      using nb by auto
    have unfold: "BitStreamGetInt_loop ptr byo bo shift bits result = Inr r"
      using True inb run
      by (subst BitStreamGetInt_loop.simps) (simp add: result1_def chunk_def n_def)
    have "bit r k \<longleftrightarrow>
        (if k < shift then bit result k
         else k < shift + bits \<and> buffer_bit ptr (8 * byo + bo + (k - shift)))" for k
    proof -
      consider "k < shift" | "shift \<le> k" "k < shift + n" | "shift + n \<le> k"
        by linarith
      then show ?thesis
      proof cases
        case 1
        then show ?thesis
          using ih [of k] r1bit [of k] by simp
      next
        case 2
        have lo: "8 * byo \<le> 8 * byo + bo + (k - shift)"
          and hi: "8 * byo + bo + (k - shift) < 8 * byo + 8"
          using 2 n8 by simp_all
        have "bit (ptr ! byo) (bo + (k - shift)) = buffer_bit ptr (8 * byo + bo + (k - shift))"
          using buffer_bit_byte [OF lo hi, of ptr] by (simp add: add.assoc)
        moreover have "\<not> bit result k"
          using rbit [of k] 2 by auto
        moreover have "k < 64" and "k < shift + bits" and "k - shift < n"
          using 2 nb "1.prems"(3) by simp_all
        ultimately show ?thesis
          using ih [of k] r1bit [of k] 2 by simp
      next
        case 3
        show ?thesis
        proof (cases "k < shift + bits")
          case True
          then have "n < bits" using 3 by simp
          then have "n = 8 - bo" using n by simp
          then have "8 * (byo + 1) + (k - (shift + n)) = 8 * byo + bo + (k - shift)"
            using 3 "1.prems"(1) by simp
          then show ?thesis
            using ih [of k] 3 True by simp
        next
          case False
          then show ?thesis
            using ih [of k] 3 by simp
        qed
      qed
    qed
    then show ?thesis
      using unfold by simp
  qed
qed

lemma bitstream_in_bounds:
  fixes offset bits len :: nat
  assumes "(offset + bits + 7) div 8 \<le> len"
  shows "offset + bits \<le> 8 * len"
    and "((offset + bits + 7) mod 2 ^ 64) div 8 \<le> len"
proof -
  show "offset + bits \<le> 8 * len"
    using assms by arith
  have "(offset + bits + 7) mod 2 ^ 64 \<le> offset + bits + 7"
    by (rule mod_less_eq_dividend)
  then have "((offset + bits + 7) mod 2 ^ 64) div 8 \<le> (offset + bits + 7) div 8"
    by (rule div_le_mono)
  then show "((offset + bits + 7) mod 2 ^ 64) div 8 \<le> len"
    using assms by (rule order_trans)
qed

lemma BitStreamGetInt_bits:
  assumes "(offset + bits + 7) div 8 \<le> length src" and "bits \<le> 64"
  shows "\<exists>r. BitStreamGetInt src offset bits = Inr r \<and>
           (\<forall>k. bit r k \<longleftrightarrow> k < bits \<and> buffer_bit src (offset + k))"
proof -
  note b = bitstream_in_bounds [OF assms(1)]
  have "8 * (offset div 8) + offset mod 8 + bits \<le> 8 * length src"
    using b(1) by simp
  from BitStreamGetInt_loop_bits [of "offset mod 8" "offset div 8" bits src 0 0, OF _ this]
  obtain r where "BitStreamGetInt_loop src (offset div 8) (offset mod 8) 0 bits 0 = Inr r"
    and "\<And>k. bit r k \<longleftrightarrow> k < bits \<and> buffer_bit src (offset + k)"
    using assms(2) by auto
  then show ?thesis
    using b(2) assms(2) by (simp add: BitStreamGetInt_def)
qed

lemma BitStreamPutInt_origValue:
  "bits \<le> 64 \<Longrightarrow> (if bits < 64 then v AND (push_bit bits 1 - 1) else v) = take_bit bits (v :: u64)"
  by (rule bit_word_eqI) (auto simp add: bit_simps simp flip: mask_eq_exp_minus_1)

lemma BitStreamPutInt_bits:
  assumes "(offset + bits + 7) div 8 \<le> length buf" and "bits \<le> 64"
  shows "\<exists>buf'. BitStreamPutInt buf offset bits v = Inr buf' \<and> length buf' = length buf \<and>
           BitStreamGetInt buf' offset bits = Inr (take_bit bits v) \<and>
           (\<forall>i. buffer_bit buf' i =
              (if offset \<le> i \<and> i < offset + bits then bit v (i - offset)
               else buffer_bit buf i))"
proof -
  note b = bitstream_in_bounds [OF assms(1)]
  have "8 * (offset div 8) + offset mod 8 + bits \<le> 8 * length buf"
    using b(1) by simp
  from BitStreamPutInt_loop_bits [of "offset mod 8" "offset div 8" bits buf v, OF _ this]
  obtain buf' where
    run: "BitStreamPutInt_loop buf (offset div 8) (offset mod 8) bits v = Inr buf'"
    and len: "length buf' = length buf"
    and bits: "\<And>i. buffer_bit buf' i =
              (if offset \<le> i \<and> i < offset + bits then bit v (i - offset)
               else buffer_bit buf i)"
    by auto
  have "(offset + bits + 7) div 8 \<le> length buf'"
    using assms(1) len by simp
  from BitStreamGetInt_bits [OF this assms(2)]
  obtain r where get: "BitStreamGetInt buf' offset bits = Inr r"
    and rbits: "\<And>k. bit r k \<longleftrightarrow> k < bits \<and> buffer_bit buf' (offset + k)"
    by auto
  have "r = take_bit bits v"
    by (rule bit_word_eqI) (simp add: rbits bits bit_simps)
  then show ?thesis
    using run len get bits b(2) assms(2) BitStreamPutInt_origValue [OF assms(2), of v]
    by (simp add: BitStreamPutInt_def)
qed

section \<open>Lemmas on the write batch\<close>

lemma GetLengthPrefixedSlice_PutLengthPrefixedSlice:
  assumes "length s < 2 ^ 32"
  shows "GetLengthPrefixedSlice (EncodeVarint32 (of_nat (length s)) @ s @ rest) r
           = (True, rest, s)"
proof -
  have u: "unat (of_nat (length s) :: u32) = length s"
    using assms by (simp add: unat_of_nat)
  have "GetVarint32 (EncodeVarint32 (of_nat (length s)) @ s @ rest) 0
          = (True, s @ rest, of_nat (length s))"
    by (simp add: GetVarint32_def GetVarint32Ptr_EncodeVarint32)
  then show ?thesis
    by (simp add: GetLengthPrefixedSlice_def u)
qed

lemma Iterate_loop_record:
  assumes "call_fits c"
  shows "Iterate_loop recorder (record_bytes c @ rest) acc = Iterate_loop recorder rest (acc @ [c])"
  using assms
  by (cases c)
    (simp_all add: PutLengthPrefixedSlice_def PutVarint32_def
      GetLengthPrefixedSlice_PutLengthPrefixedSlice recorder_def
      kTypeValue_def kTypeMerge_def kTypeDeletion_def)

lemma Iterate_loop_records:
  "list_all call_fits cs \<Longrightarrow>
   Iterate_loop recorder (concat (map record_bytes cs)) acc = Inr (Ok, acc @ cs)"
proof (induction cs arbitrary: acc)
  case Nil
  then show ?case by simp
next
  case (Cons c cs)
  then show ?case
    by (simp add: Iterate_loop_record del: record_bytes.simps)
qed

lemma append_record_rep:
  assumes "kHeader \<le> length (rep_m b)"
  shows "kHeader \<le> length (rep_m (append_record b bytes))"
    and "drop kHeader (rep_m (append_record b bytes)) = drop kHeader (rep_m b) @ bytes"
  using assms
  by (simp_all add: append_record_def SetCount_def EncodeFixed32_def kHeader_def Let_def)

lemma apply_call_append: "apply_call b c = append_record b (record_bytes c)"
  by (cases c) (simp_all add: Put_def Delete_def Merge_def)

lemma foldl_apply_call_rep:
  "kHeader \<le> length (rep_m b) \<Longrightarrow>
   kHeader \<le> length (rep_m (foldl apply_call b cs)) \<and>
   drop kHeader (rep_m (foldl apply_call b cs))
     = drop kHeader (rep_m b) @ concat (map record_bytes cs)"
proof (induction cs arbitrary: b)
  case Nil
  then show ?case by simp
next
  case (Cons c cs)
  note a = append_record_rep [OF Cons.prems, of "record_bytes c"]
  show ?case
    using Cons.IH [of "apply_call b c"] a
    by (simp add: apply_call_append del: record_bytes.simps)
qed

lemma build_rep:
  "kHeader \<le> length (rep_m (build cs)) \<and>
   drop kHeader (rep_m (build cs)) = concat (map record_bytes cs)"
  using foldl_apply_call_rep [of WriteBatch_new cs]
  by (simp add: build_def WriteBatch_new_def Clear_def PutFixed32_def PutFixed64_def
      EncodeFixed32_def EncodeFixed64_def kHeader_def)

lemma Iterate_build:
  "list_all call_fits cs \<Longrightarrow> Iterate recorder (build cs) [] = Inr (Ok, cs)"
  using build_rep [of cs] Iterate_loop_records [of cs "[]"]
  by (simp add: Iterate_def Let_def)

lemma WriteBatch_from_Data: "WriteBatch_from (Data b) = b"
  by (simp add: WriteBatch_from_def Data_def)

lemmas batch_defs = build_def WriteBatch_new_def Clear_def PutFixed32_def PutFixed64_def
  EncodeFixed32_def EncodeFixed64_def Put_def Delete_def Merge_def append_record_def
  SetCount_def Count_def DecodeFixed32_def PutLengthPrefixedSlice_def PutVarint32_def
  EncodeVarint32_def kTypeValue_def kTypeDeletion_def kTypeMerge_def Data_def

section \<open>Lemmas on the arena\<close>

lemma capacity_push_back: "capacity v \<le> capacity (push_back grow v x)"
  by (auto simp add: push_back_def)

lemma AllocateNewBlock_step:
  assumes "AllocateNewBlock new_char grow a bytes = Inr (p, a')"
  shows "blocks_memory_m a' = blocks_memory_m a + bytes"
    and "capacity (blocks_m a) \<le> capacity (blocks_m a')"
    and "alloc_bytes_remaining_m a' = alloc_bytes_remaining_m a"
    and "alloc_ptr_m a' = alloc_ptr_m a"
  using assms
  by (auto simp add: AllocateNewBlock_def capacity_push_back split: option.splits)

lemma AllocateFallback_step:
  assumes "AllocateFallback new_char grow a bytes = Inr (p, a')"
  shows "blocks_memory_m a + alloc_bytes_remaining_m a' + bytes
           \<le> blocks_memory_m a' + alloc_bytes_remaining_m a"
    and "capacity (blocks_m a) \<le> capacity (blocks_m a')"
    and "blocks_memory_m a \<le> blocks_memory_m a'"
    and "alloc_bytes_remaining_m a \<le> blocks_memory_m a \<Longrightarrow>
         alloc_bytes_remaining_m a' \<le> blocks_memory_m a'"
proof -
  have "(blocks_memory_m a + alloc_bytes_remaining_m a' + bytes
           \<le> blocks_memory_m a' + alloc_bytes_remaining_m a) \<and>
        capacity (blocks_m a) \<le> capacity (blocks_m a') \<and>
        blocks_memory_m a \<le> blocks_memory_m a' \<and>
        (alloc_bytes_remaining_m a \<le> blocks_memory_m a \<longrightarrow>
         alloc_bytes_remaining_m a' \<le> blocks_memory_m a')"
  proof (cases "bytes > kBlockSize div 4")
    case True
    then have "AllocateNewBlock new_char grow a bytes = Inr (p, a')"
      using assms by (simp add: AllocateFallback_def)
    from AllocateNewBlock_step [OF this] show ?thesis by simp
  next
    case False
    then obtain p1 a1 where n: "AllocateNewBlock new_char grow a kBlockSize = Inr (p1, a1)"
      and a': "a' = a1\<lparr>alloc_ptr_m := p1 + bytes,
                       alloc_bytes_remaining_m := kBlockSize - bytes\<rparr>"
      using assms
      by (auto simp add: AllocateFallback_def Let_def split: sum.splits prod.splits)
    from AllocateNewBlock_step [OF n] False a' show ?thesis
      by (auto simp add: kBlockSize_def)
  qed
  then show "blocks_memory_m a + alloc_bytes_remaining_m a' + bytes
           \<le> blocks_memory_m a' + alloc_bytes_remaining_m a"
    and "capacity (blocks_m a) \<le> capacity (blocks_m a')"
    and "blocks_memory_m a \<le> blocks_memory_m a'"
    and "alloc_bytes_remaining_m a \<le> blocks_memory_m a \<Longrightarrow>
         alloc_bytes_remaining_m a' \<le> blocks_memory_m a'"
    by simp_all
qed

lemma Allocate_step:
  assumes "Allocate new_char grow a bytes = Inr (p, a')"
    and "alloc_bytes_remaining_m a \<le> blocks_memory_m a"
  shows "blocks_memory_m a + alloc_bytes_remaining_m a' + bytes
           \<le> blocks_memory_m a' + alloc_bytes_remaining_m a"
    and "capacity (blocks_m a) \<le> capacity (blocks_m a')"
    and "blocks_memory_m a \<le> blocks_memory_m a'"
    and "alloc_bytes_remaining_m a' \<le> blocks_memory_m a'"
proof -
  have "(blocks_memory_m a + alloc_bytes_remaining_m a' + bytes
           \<le> blocks_memory_m a' + alloc_bytes_remaining_m a) \<and>
        capacity (blocks_m a) \<le> capacity (blocks_m a') \<and>
        blocks_memory_m a \<le> blocks_memory_m a' \<and>
        alloc_bytes_remaining_m a' \<le> blocks_memory_m a'"
  proof (cases "bytes \<le> alloc_bytes_remaining_m a")
    case True
    then have "a' = a\<lparr>alloc_ptr_m := alloc_ptr_m a + bytes,
                       alloc_bytes_remaining_m := alloc_bytes_remaining_m a - bytes\<rparr>"
      using assms(1) by (auto simp add: Allocate_def split: if_splits)
    then show ?thesis using True assms(2) by simp
  next
    case False
    then have "AllocateFallback new_char grow a bytes = Inr (p, a')"
      using assms(1) by (auto simp add: Allocate_def split: if_splits)
    from AllocateFallback_step [OF this] assms(2) show ?thesis by simp
  qed
  then show "blocks_memory_m a + alloc_bytes_remaining_m a' + bytes
           \<le> blocks_memory_m a' + alloc_bytes_remaining_m a"
    and "capacity (blocks_m a) \<le> capacity (blocks_m a')"
    and "blocks_memory_m a \<le> blocks_memory_m a'"
    and "alloc_bytes_remaining_m a' \<le> blocks_memory_m a'"
    by simp_all
qed

lemma AllocateAligned_step:
  assumes "AllocateAligned new_char grow a bytes = Inr (p, a')"
    and "alloc_bytes_remaining_m a \<le> blocks_memory_m a"
    and "bytes + 8 \<le> 2 ^ 64"
  shows "blocks_memory_m a + alloc_bytes_remaining_m a' + bytes
           \<le> blocks_memory_m a' + alloc_bytes_remaining_m a"
    and "capacity (blocks_m a) \<le> capacity (blocks_m a')"
    and "blocks_memory_m a \<le> blocks_memory_m a'"
    and "alloc_bytes_remaining_m a' \<le> blocks_memory_m a'"
proof -
  define slop where "slop = (if alloc_ptr_m a mod 8 = 0 then 0 else 8 - alloc_ptr_m a mod 8)"
  define needed where "needed = (bytes + slop) mod 2 ^ 64"
  have "slop < 8" by (simp add: slop_def)
  then have needed: "needed = bytes + slop"
    using assms(3) by (simp add: needed_def)
  have "(blocks_memory_m a + alloc_bytes_remaining_m a' + bytes
           \<le> blocks_memory_m a' + alloc_bytes_remaining_m a) \<and>
        capacity (blocks_m a) \<le> capacity (blocks_m a') \<and>
        blocks_memory_m a \<le> blocks_memory_m a' \<and>
        alloc_bytes_remaining_m a' \<le> blocks_memory_m a'"
  proof (cases "needed \<le> alloc_bytes_remaining_m a")
    case True
    then have "a' = a\<lparr>alloc_ptr_m := alloc_ptr_m a + needed,
                       alloc_bytes_remaining_m := alloc_bytes_remaining_m a - needed\<rparr>"
      using assms(1)
      by (auto simp add: AllocateAligned_def Let_def slop_def needed_def split: if_splits)
    then show ?thesis using True assms(2) needed by simp
  next
    case False
    then have "AllocateFallback new_char grow a bytes = Inr (p, a')"
      using assms(1)
      by (auto simp add: AllocateAligned_def Let_def slop_def needed_def
          split: if_splits sum.splits prod.splits)
    from AllocateFallback_step [OF this] assms(2) show ?thesis by simp
  qed
  then show "blocks_memory_m a + alloc_bytes_remaining_m a' + bytes
           \<le> blocks_memory_m a' + alloc_bytes_remaining_m a"
    and "capacity (blocks_m a) \<le> capacity (blocks_m a')"
    and "blocks_memory_m a \<le> blocks_memory_m a'"
    and "alloc_bytes_remaining_m a' \<le> blocks_memory_m a'"
    by simp_all
qed

lemma Arena_call_step:
  assumes "Arena_call new_char grow a c = Inr (p, a')"
    and "alloc_bytes_remaining_m a \<le> blocks_memory_m a"
    and "call_ok c"
  shows "blocks_memory_m a + alloc_bytes_remaining_m a' + call_bytes c
           \<le> blocks_memory_m a' + alloc_bytes_remaining_m a"
    and "MemoryUsage a \<le> MemoryUsage a'"
    and "alloc_bytes_remaining_m a' \<le> blocks_memory_m a'"
proof -
  have "(blocks_memory_m a + alloc_bytes_remaining_m a' + call_bytes c
           \<le> blocks_memory_m a' + alloc_bytes_remaining_m a) \<and>
        capacity (blocks_m a) \<le> capacity (blocks_m a') \<and>
        blocks_memory_m a \<le> blocks_memory_m a' \<and>
        alloc_bytes_remaining_m a' \<le> blocks_memory_m a'"
  proof (cases c)
    case (CallAllocate n)
    then have "Allocate new_char grow a n = Inr (p, a')"
      using assms(1) by simp
    from Allocate_step [OF this assms(2)] CallAllocate show ?thesis by simp
  next
    case (CallAllocateAligned n)
    then have "AllocateAligned new_char grow a n = Inr (p, a')" and "n + 8 \<le> 2 ^ 64"
      using assms(1,3) by simp_all
    from AllocateAligned_step [OF this(1) assms(2) this(2)] CallAllocateAligned
    show ?thesis by simp
  qed
  then show "blocks_memory_m a + alloc_bytes_remaining_m a' + call_bytes c
           \<le> blocks_memory_m a' + alloc_bytes_remaining_m a"
    and "MemoryUsage a \<le> MemoryUsage a'"
    and "alloc_bytes_remaining_m a' \<le> blocks_memory_m a'"
    by (simp_all add: MemoryUsage_def add_mono)
qed

lemma Arena_run_usage:
  "Arena_run new_char grow a cs = Inr as \<Longrightarrow>
   alloc_bytes_remaining_m a \<le> blocks_memory_m a \<Longrightarrow> list_all call_ok cs \<Longrightarrow>
   length as = length cs \<and> sorted (map MemoryUsage (a # as)) \<and>
   blocks_memory_m a + alloc_bytes_remaining_m (last (a # as)) + sum_list (map call_bytes cs)
     \<le> blocks_memory_m (last (a # as)) + alloc_bytes_remaining_m a"
proof (induction cs arbitrary: a as)
  case Nil
  then show ?case by simp
next
  case (Cons c cs)
  from Cons.prems(1) obtain p a1 as1
    where c: "Arena_call new_char grow a c = Inr (p, a1)"
      and r: "Arena_run new_char grow a1 cs = Inr as1"
      and as: "as = a1 # as1"
    by (auto split: sum.splits prod.splits)
  from Cons.prems(3) have ok: "call_ok c" and oks: "list_all call_ok cs"
    by simp_all
  note step = Arena_call_step [OF c Cons.prems(2) ok]
  note ih = Cons.IH [OF r step(3) oks]
  have "sorted (map MemoryUsage (a # a1 # as1))"
    using step(2) ih by (simp del: sorted_wrt.simps add: sorted2)
  moreover have "blocks_memory_m a + alloc_bytes_remaining_m (last (a1 # as1))
        + sum_list (map call_bytes (c # cs))
      \<le> blocks_memory_m (last (a1 # as1)) + alloc_bytes_remaining_m a"
    using step(1) ih by simp
  ultimately show ?case
    using ih as by simp
qed

lemma AllocateFallback_returns:
  assumes "\<forall>k n. \<exists>p. new_char k n = Some p \<and> p mod 8 = 0"
  shows "\<exists>p a'. AllocateFallback new_char grow a bytes = Inr (p, a') \<and> p mod 8 = 0"
proof (cases "bytes > kBlockSize div 4")
  case True
  from assms [THEN spec, THEN spec, of "length (elems (blocks_m a))" bytes]
  obtain p where "new_char (length (elems (blocks_m a))) bytes = Some p" and "p mod 8 = 0"
    by auto
  then show ?thesis
    using True by (simp add: AllocateFallback_def AllocateNewBlock_def)
next
  case False
  from assms [THEN spec, THEN spec, of "length (elems (blocks_m a))" kBlockSize]
  obtain p where "new_char (length (elems (blocks_m a))) kBlockSize = Some p" and "p mod 8 = 0"
    by auto
  then show ?thesis
    using False by (simp add: AllocateFallback_def AllocateNewBlock_def Let_def)
qed

lemma Arena_call_returns:
  assumes "\<forall>k n. \<exists>p. new_char k n = Some p \<and> p mod 8 = 0" and "0 < call_bytes c"
  shows "\<exists>p a'. Arena_call new_char grow a c = Inr (p, a')"
proof (cases c)
  case (CallAllocate n)
  then show ?thesis
    using assms(2) AllocateFallback_returns [OF assms(1), of grow a n]
    by (auto simp add: Allocate_def)
next
  case (CallAllocateAligned n)
  have "(alloc_ptr_m a + (if alloc_ptr_m a mod 8 = 0 then 0 else 8 - alloc_ptr_m a mod 8)) mod 8 = 0"
    by presburger
  then show ?thesis
    using CallAllocateAligned AllocateFallback_returns [OF assms(1), of grow a n]
    by (auto simp add: AllocateAligned_def Let_def)
qed

lemma Arena_run_returns:
  assumes "\<forall>k n. \<exists>p. new_char k n = Some p \<and> p mod 8 = 0"
    and "list_all (\<lambda>c. 0 < call_bytes c) cs"
  shows "\<exists>as. Arena_run new_char grow a cs = Inr as"
  using assms(2)
proof (induction cs arbitrary: a)
  case Nil
  then show ?case by simp
next
  case (Cons c cs)
  then obtain p a' where "Arena_call new_char grow a c = Inr (p, a')"
    using Arena_call_returns [OF assms(1), of c grow a] by auto
  moreover obtain as where "Arena_run new_char grow a' cs = Inr as"
    using Cons by auto
  ultimately show ?case by simp
qed

lemma Arena_call_mono:
  assumes "Arena_call new_char grow a c = Inr (p, a')"
  shows "MemoryUsage a \<le> MemoryUsage a'"
proof -
  have fb: "blocks_memory_m a \<le> blocks_memory_m a' \<and> capacity (blocks_m a) \<le> capacity (blocks_m a')"
    if "AllocateFallback new_char grow a n = Inr (p, a')" for n
    using AllocateFallback_step(2,3) [OF that] by simp
  have "blocks_memory_m a \<le> blocks_memory_m a' \<and> capacity (blocks_m a) \<le> capacity (blocks_m a')"
  proof (cases c)
    case (CallAllocate n)
    then show ?thesis
      using assms fb [of n]
      by (auto simp add: Allocate_def split: if_splits)
  next
    case (CallAllocateAligned n)
    then show ?thesis
      using assms fb [of n]
      by (auto simp add: AllocateAligned_def Let_def split: if_splits sum.splits prod.splits)
  qed
  then show ?thesis
    by (simp add: MemoryUsage_def add_mono)
qed

lemma Arena_run_sorted:
  "Arena_run new_char grow a cs = Inr as \<Longrightarrow> sorted (map MemoryUsage (a # as))"
proof (induction cs arbitrary: a as)
  case Nil
  then show ?case by simp
next
  case (Cons c cs)
  from Cons.prems obtain p a1 as1
    where c: "Arena_call new_char grow a c = Inr (p, a1)"
      and r: "Arena_run new_char grow a1 cs = Inr as1"
      and as: "as = a1 # as1"
    by (auto split: sum.splits prod.splits)
  show ?case
    using Arena_call_mono [OF c] Cons.IH [OF r] as
    by (simp del: sorted_wrt.simps add: sorted2)
qed

lemmas arena_defs = Arena_new_def vector_empty_def push_back_def Allocate_def
  AllocateAligned_def AllocateFallback_def AllocateNewBlock_def kBlockSize_def
  aligned_blocks_def doubling_def MemoryUsage_def

section \<open>Lemmas on the skip list\<close>

lemma RandomHeight_loop_bounds:
  "1 \<le> height \<Longrightarrow> height \<le> kMaxHeight \<Longrightarrow>
   1 \<le> fst (RandomHeight_loop Next height rnd) \<and>
   fst (RandomHeight_loop Next height rnd) \<le> kMaxHeight"
proof (induction Next height rnd rule: RandomHeight_loop.induct)
  case (1 Next height rnd)
  show ?case
  proof (cases "height < kMaxHeight \<and> fst (Next rnd) AND kBranching = 0")
    case True
    then show ?thesis
      using 1 by (subst (1 2) RandomHeight_loop.simps) simp
  next
    case False
    then show ?thesis
      using 1(2,3) by (subst (1 2) RandomHeight_loop.simps) auto
  qed
qed

lemma RandomHeight_returns:
  "\<exists>height rnd'. RandomHeight Next rnd = Inr (height, rnd') \<and> 1 \<le> height \<and> height \<le> 12"
  using RandomHeight_loop_bounds [of 1 Next rnd]
  by (auto simp add: RandomHeight_def kMaxHeight_def split: prod.splits)

section \<open>Lemmas on the hash\<close>

lemma ucast_u32_u64_u32: "(ucast (ucast (x :: u32) :: u64) :: u32) = x"
  by (rule bit_word_eqI) (auto simp add: bit_simps)

section \<open>Properties\<close>

text \<open>
  C6. With \<open>n = 0\<close> the hash of any memory under any seed is the seed: the initial value
  is \<open>seed XOR (0 * m)\<close>, the four-byte loop does not run and no case of the switch on
  the number of leftover bytes applies.
\<close>

theorem Hash_zero_length: "Hash char_signed mem 0 seed = seed"
  by (simp add: Hash_def Hash_tail_def ucast_u32_u64_u32)

text \<open>
  C4. Varint round trip. For every 32-bit \<open>v\<close>, decoding the bytes of
  \<open>EncodeVarint32 v\<close> with \<open>GetVarint32Ptr\<close> (whatever bytes follow them before the
  limit, and whatever the output held before) stores \<open>v\<close> and returns the position just
  past the encoding; the encoding has \<open>VarintLength v\<close> bytes, at most 5. The same holds
  for every 64-bit \<open>w\<close> with \<open>EncodeVarint64\<close> and \<open>GetVarint64Ptr\<close>, at most 10 bytes.
  The encoding of 300 is the two bytes 0xAC, 0x02.
\<close>

theorem varint_roundtrip:
  "GetVarint32Ptr (EncodeVarint32 v @ rest) old = (Some rest, v) \<and>
   int (length (EncodeVarint32 v)) = VarintLength (ucast v) \<and>
   length (EncodeVarint32 v) \<le> 5 \<and>
   GetVarint64Ptr (EncodeVarint64 w @ rest') old' = (Some rest', w) \<and>
   int (length (EncodeVarint64 w)) = VarintLength w \<and>
   length (EncodeVarint64 w) \<le> 10 \<and>
   EncodeVarint32 300 = [0xAC, 0x02] \<and>
   EncodeVarint64 300 = [0xAC, 0x02]"
proof -
  have "EncodeVarint64 300 = [0xAC, 0x02]"
    by (simp add: EncodeVarint64_cont EncodeVarint64_last)
  then show ?thesis
    using GetVarint32Ptr_EncodeVarint32 [of v rest old]
      length_EncodeVarint32_VarintLength [of v] length_EncodeVarint32 [of v]
      GetVarint64Ptr_EncodeVarint64 [of w rest' old']
      VarintLength_EncodeVarint64 [of w] length_EncodeVarint64 [of w]
      EncodeVarint32_300
    by simp
qed

text \<open>
  C3, as the code has it. \<open>GetVarint32\<close> fails exactly on the inputs whose first five
  bytes (or all its bytes, when there are fewer) have the continuation bit set, that is on
  a truncated or over-long varint, and \<open>GetVarint64\<close> exactly when the same holds of the
  first ten bytes; a failed call returns false and leaves both the input slice and the
  output value as they were. \<open>GetLengthPrefixedSlice\<close> fails when the length varint
  fails, and then its input is unchanged; when the varint is decoded it fails exactly if
  the declared length exceeds the bytes that remain, and then the input is left advanced
  past the length varint. A failed call never writes the result slice.
\<close>

theorem decode_failure_state:
  "(GetVarint32 input1 v = (False, input1', v') \<longrightarrow> input1' = input1 \<and> v' = v) \<and>
   (GetVarint64 input2 w = (False, input2', w') \<longrightarrow> input2' = input2 \<and> w' = w) \<and>
   (GetLengthPrefixedSlice input3 result = (False, input3', result') \<longrightarrow>
      result' = result \<and>
      (if fst (GetVarint32 input3 0) then
         input3' = fst (snd (GetVarint32 input3 0)) \<and>
         length input3' < unat (snd (snd (GetVarint32 input3 0)))
       else input3' = input3)) \<and>
   (GetVarint32 input1 v = (False, input1, v) \<longleftrightarrow> (\<forall>b \<in> set (take 5 input1). bit b 7)) \<and>
   (GetVarint64 input2 w = (False, input2, w) \<longleftrightarrow> (\<forall>b \<in> set (take 10 input2). bit b 7)) \<and>
   ((\<forall>b \<in> set (take 5 input3). bit b 7) \<longrightarrow>
      GetLengthPrefixedSlice input3 result = (False, input3, result)) \<and>
   (GetVarint32 input3 0 = (True, rest, len) \<longrightarrow>
      GetLengthPrefixedSlice input3 result =
        (if length rest < unat len then (False, rest, result)
         else (True, drop (unat len) rest, take (unat len) rest)))"
proof -
  have "input3' = fst (snd (GetVarint32 input3 0)) \<and>
        length input3' < unat (snd (snd (GetVarint32 input3 0)))"
    if "GetLengthPrefixedSlice input3 result = (False, input3', result')"
      and "fst (GetVarint32 input3 0)"
    using that
    by (auto simp add: GetLengthPrefixedSlice_def split: prod.splits if_splits)
  then have old: "(GetVarint32 input1 v = (False, input1', v') \<longrightarrow> input1' = input1 \<and> v' = v) \<and>
   (GetVarint64 input2 w = (False, input2', w') \<longrightarrow> input2' = input2 \<and> w' = w) \<and>
   (GetLengthPrefixedSlice input3 result = (False, input3', result') \<longrightarrow>
      result' = result \<and>
      (if fst (GetVarint32 input3 0) then
         input3' = fst (snd (GetVarint32 input3 0)) \<and>
         length input3' < unat (snd (snd (GetVarint32 input3 0)))
       else input3' = input3))"
    using GetVarint32_False [of input1 v input1' v'] GetVarint64_False [of input2 w input2' w']
      GetLengthPrefixedSlice_False [of input3 result input3' result']
    by auto
  have varint_fails: "(\<forall>b \<in> set (take 5 input3). bit b 7) \<longrightarrow>
      GetLengthPrefixedSlice input3 result = (False, input3, result)"
    by (simp add: GetLengthPrefixedSlice_cases)
  have decoded: "GetVarint32 input3 0 = (True, rest, len) \<longrightarrow>
      GetLengthPrefixedSlice input3 result =
        (if length rest < unat len then (False, rest, result)
         else (True, drop (unat len) rest, take (unat len) rest))"
    by (auto simp add: GetLengthPrefixedSlice_def)
  show ?thesis
    using old GetVarint32_fails_iff [of input1 v] GetVarint64_fails_iff [of input2 w]
      varint_fails decoded
    by (intro conjI) (elim conjE, assumption)+
qed

theorem decode_failure_state_witness:
  "GetVarint32 [0x80] 7 = (False, [0x80], 7) \<and>
   GetVarint64 [0x80] 7 = (False, [0x80], 7) \<and>
   GetLengthPrefixedSlice [0x80] [9] = (False, [0x80], [9]) \<and>
   GetVarint32 [5, 1, 2] 0 = (True, [1, 2], 5) \<and>
   GetLengthPrefixedSlice [5, 1, 2] [9] = (False, [1, 2], [9])"
proof -
  have b: "bit (0x80 :: u8) 7"
    by (simp add: bit_simps bit_128_int)
  have f: "GetVarint32 [0x80] 7 = (False, [0x80], 7)"
    "GetVarint64 [0x80] 7 = (False, [0x80], 7)"
    "GetLengthPrefixedSlice [0x80] [9] = (False, [0x80], [9])"
    using decode_failure_state [of "[0x80]" 7 "[0x80]" 7 "[0x80]" 7 "[0x80]" 7
        "[0x80]" "[9]" "[0x80]" "[9]" "[]" 0] b
    by simp_all
  have d: "GetVarint32 [5, 1, 2] 0 = (True, [1, 2], 5)"
    by (simp add: GetVarint32_def GetVarint32Ptr_def)
  from d have "GetLengthPrefixedSlice [5, 1, 2] [9] = (False, [1, 2], [9])"
    using decode_failure_state [of "[0x80]" 7 "[0x80]" 7 "[0x80]" 7 "[0x80]" 7
        "[5, 1, 2]" "[9]" "[1, 2]" "[9]" "[1, 2]" 5]
    by simp
  with f d show ?thesis
    by simp
qed

text \<open>
  C3 as stated fails: the slice \<open>[5, 1, 2]\<close> declares five bytes and holds two; the
  decoder reports failure, and the caller's input no longer starts at the length byte.
\<close>

theorem GetLengthPrefixedSlice_failure_advances_input:
  "GetLengthPrefixedSlice [5, 1, 2] [9] = (False, [1, 2], [9])"
  by (simp add: GetLengthPrefixedSlice_def GetVarint32_def GetVarint32Ptr_def)

text \<open>
  C5 against the code. \<open>RandomHeight\<close> tests the draw with a bitwise AND against
  \<open>kBranching = 4\<close>, not with the remainder modulo 4: the loop goes on exactly when bit 2
  of the draw is clear. A generator that always draws 1 (remainder 1 modulo 4) drives the
  height to the cap 12; a generator that draws 4 (remainder 0) stops the loop at height 1.
\<close>

theorem RandomHeight_tests_bit_2:
  "(1 :: u32) mod 4 \<noteq> 0 \<and> RandomHeight (const_draw 1) () = Inr (12, ()) \<and>
   (4 :: u32) mod 4 = 0 \<and> RandomHeight (const_draw 4) () = Inr (1, ())"
  by (simp add: RandomHeight_def RandomHeight_loop.simps const_draw_def kMaxHeight_def
      kBranching_def)

text \<open>
  C1 against the code. On a freshly constructed list, \<open>Insert\<close> of the key 1 with draws
  that give the new node the full height 12 returns with the new node, node 1, stored in
  all twelve forward pointers of the head: the node is reachable at every level. Its own
  forward pointers were never written by \<open>Insert\<close>: the one at level 0 is as its
  constructor left it, those at the levels 1 to 11 hold nothing. This is so whatever the
  addresses of the nodes are.
\<close>

theorem Insert_links_node_with_unwritten_pointers:
  "bind_fault (SkipList_new (0 :: int) ())
     (\<lambda>s. Insert 100 int_cmp (const_draw 1) addr s 1) =
     Inr \<lparr>nodes = [\<lparr>key = 0, next_m = replicate 12 (Ptr (Some 1))\<rparr>,
                   \<lparr>key = 1, next_m = Ptr None # replicate 11 Uninit\<rparr>],
          max_height_m = 12, prev_m = 1 # replicate 11 0, rnd_m = ()\<rparr>"
  by code_simp

text \<open>
  C2 against the code. On a fresh list and with nodes of height 1, after \<open>Insert 1\<close>
  the key 1 is found. A following \<open>Insert 0\<close> never leaves a list in which it is: the
  search gives the head as predecessor and node 1 as its successor, and the first statement
  of the linking loop hands that pointer, converted to \<open>int\<close>, to the getter of the new
  node as its level. A negative value fails the assertion of the getter and a positive one
  indexes past the single forward pointer the new node has, so \<open>Insert\<close> does not return.
  Only if the address of node 1 converts to 0 does it return; the new node of key 0 is then
  linked behind the head with its own forward pointer still null, node 1 is no longer
  reachable, and \<open>Contains 1\<close> returns false.
\<close>

theorem Contains_after_Insert_wrong:
  "bind_fault (SkipList_new (0 :: int) ())
     (\<lambda>s. bind_fault (Insert 100 int_cmp (const_draw 4) addr s 1)
        (\<lambda>s1. Contains 100 int_cmp s1 1)) = Inr True \<and>
   bind_fault (SkipList_new (0 :: int) ())
     (\<lambda>s. bind_fault (Insert 100 int_cmp (const_draw 4) addr s 1)
        (\<lambda>s1. bind_fault (Insert 100 int_cmp (const_draw 4) addr s1 0)
           (\<lambda>s2. Contains 100 int_cmp s2 1))) =
     (if addr 1 < 0 then Inl AssertionFailed
      else if addr 1 = 0 then Inr False
      else Inl OutOfBounds)"
proof (intro conjI)
  show "bind_fault (SkipList_new (0 :: int) ())
     (\<lambda>s. bind_fault (Insert 100 int_cmp (const_draw 4) addr s 1)
        (\<lambda>s1. Contains 100 int_cmp s1 1)) = Inr True"
    by code_simp
  show "bind_fault (SkipList_new (0 :: int) ())
     (\<lambda>s. bind_fault (Insert 100 int_cmp (const_draw 4) addr s 1)
        (\<lambda>s1. bind_fault (Insert 100 int_cmp (const_draw 4) addr s1 0)
           (\<lambda>s2. Contains 100 int_cmp s2 1))) =
     (if addr 1 < 0 then Inl AssertionFailed
      else if addr 1 = 0 then Inr False
      else Inl OutOfBounds)"
    apply code_simp
    apply (cases "addr 1 < 0")
     apply simp
    apply (cases "addr 1 = 0")
     apply (simp add: Node_SetNext_def Node_Next_def)
     apply code_simp
    apply (simp add: Node_SetNext_def Node_Next_def)
    done
qed

text \<open>
  C7, as the code has it. Take any sequence of \<open>Allocate\<close> and \<open>AllocateAligned\<close> calls
  on an arena in any state. If every call returns, \<open>MemoryUsage\<close> never decreases from
  one call to the next, whatever the sizes are. If moreover the arena was new, every size
  is positive and every aligned request is at most \<open>2 ^ 64 - 8\<close> bytes, then after the
  last call \<open>MemoryUsage\<close> is at least the sum of the sizes requested. And every call
  does return when the sizes are positive and \<open>new\<close> never fails and hands out blocks
  aligned to 8 bytes.
\<close>

theorem MemoryUsage_monotone:
  "(Arena_run new_char grow a cs = Inr as \<longrightarrow> sorted (map MemoryUsage (a # as))) \<and>
   (list_all call_ok cs \<and> Arena_run new_char grow Arena_new cs = Inr as \<longrightarrow>
      sum_list (map call_bytes cs) \<le> MemoryUsage (last (Arena_new # as))) \<and>
   (list_all (\<lambda>c. 0 < call_bytes c) cs \<and>
    (\<forall>k n. \<exists>p. new_char k n = Some p \<and> p mod 8 = 0) \<longrightarrow>
      (\<exists>as'. Arena_run new_char grow a cs = Inr as'))"
proof (intro conjI impI)
  assume "Arena_run new_char grow a cs = Inr as"
  then show "sorted (map MemoryUsage (a # as))"
    by (rule Arena_run_sorted)
next
  assume "list_all call_ok cs \<and> Arena_run new_char grow Arena_new cs = Inr as"
  then have ok: "list_all call_ok cs" and run: "Arena_run new_char grow Arena_new cs = Inr as"
    by simp_all
  have "alloc_bytes_remaining_m Arena_new \<le> blocks_memory_m Arena_new"
    by (simp add: Arena_new_def)
  from Arena_run_usage [OF run this ok]
  have "blocks_memory_m Arena_new + alloc_bytes_remaining_m (last (Arena_new # as))
              + sum_list (map call_bytes cs)
            \<le> blocks_memory_m (last (Arena_new # as)) + alloc_bytes_remaining_m Arena_new"
    by simp
  then have "sum_list (map call_bytes cs) \<le> blocks_memory_m (last (Arena_new # as))"
    by (simp add: Arena_new_def)
  then show "sum_list (map call_bytes cs) \<le> MemoryUsage (last (Arena_new # as))"
    unfolding MemoryUsage_def by (rule trans_le_add1)
next
  assume "list_all (\<lambda>c. 0 < call_bytes c) cs \<and>
    (\<forall>k n. \<exists>p. new_char k n = Some p \<and> p mod 8 = 0)"
  then show "\<exists>as'. Arena_run new_char grow a cs = Inr as'"
    using Arena_run_returns [of new_char cs grow a] by simp
qed

theorem MemoryUsage_monotone_witness:
  "list_all call_ok
     [CallAllocate 1, CallAllocateAligned 5, CallAllocate 2000, CallAllocate 4000,
            CallAllocateAligned 100] \<and>
   list_all (\<lambda>c. 0 < call_bytes c)
     [CallAllocate 1, CallAllocateAligned 5, CallAllocate 2000, CallAllocate 4000,
            CallAllocateAligned 100] \<and>
   (\<forall>k n. \<exists>p. aligned_blocks k n = Some p \<and> p mod 8 = 0) \<and>
   (\<exists>as. Arena_run aligned_blocks doubling Arena_new
           [CallAllocate 1, CallAllocateAligned 5, CallAllocate 2000, CallAllocate 4000,
            CallAllocateAligned 100] = Inr as \<and>
        map MemoryUsage as = [4104, 4104, 4104, 8112, 8112] \<and>
        sorted (map MemoryUsage (Arena_new # as)) \<and>
        sum_list (map call_bytes
           [CallAllocate 1, CallAllocateAligned 5, CallAllocate 2000, CallAllocate 4000,
            CallAllocateAligned 100]) \<le> MemoryUsage (last (Arena_new # as)))"
proof -
  have run: "Arena_run aligned_blocks doubling Arena_new
           [CallAllocate 1, CallAllocateAligned 5, CallAllocate 2000, CallAllocate 4000,
            CallAllocateAligned 100] =
      Inr [\<lparr>alloc_ptr_m = 4294967297, alloc_bytes_remaining_m = 4095,
              blocks_m = \<lparr>elems = [4294967296], capacity = 1\<rparr>,
              blocks_memory_m = 4096\<rparr>,
           \<lparr>alloc_ptr_m = 4294967309, alloc_bytes_remaining_m = 4083,
              blocks_m = \<lparr>elems = [4294967296], capacity = 1\<rparr>,
              blocks_memory_m = 4096\<rparr>,
           \<lparr>alloc_ptr_m = 4294969309, alloc_bytes_remaining_m = 2083,
              blocks_m = \<lparr>elems = [4294967296], capacity = 1\<rparr>,
              blocks_memory_m = 4096\<rparr>,
           \<lparr>alloc_ptr_m = 4294969309, alloc_bytes_remaining_m = 2083,
              blocks_m = \<lparr>elems = [4294967296, 8589934592], capacity = 2\<rparr>,
              blocks_memory_m = 8096\<rparr>,
           \<lparr>alloc_ptr_m = 4294969412, alloc_bytes_remaining_m = 1980,
              blocks_m = \<lparr>elems = [4294967296, 8589934592], capacity = 2\<rparr>,
              blocks_memory_m = 8096\<rparr>]"
    by (simp add: arena_defs Let_def)
  have ok: "list_all call_ok
           [CallAllocate 1, CallAllocateAligned 5, CallAllocate 2000, CallAllocate 4000,
            CallAllocateAligned 100]"
    by simp
  have pos: "list_all (\<lambda>c. 0 < call_bytes c)
           [CallAllocate 1, CallAllocateAligned 5, CallAllocate 2000, CallAllocate 4000,
            CallAllocateAligned 100]"
    by simp
  have "(2 ^ 32 * (k + 1)) mod 8 = (0 :: nat)" for k
    by simp
  then have al: "\<forall>k n. \<exists>p. aligned_blocks k n = Some p \<and> p mod 8 = 0"
    by (simp add: aligned_blocks_def)
  from run have "\<exists>as. Arena_run aligned_blocks doubling Arena_new
           [CallAllocate 1, CallAllocateAligned 5, CallAllocate 2000, CallAllocate 4000,
            CallAllocateAligned 100] = Inr as \<and>
        map MemoryUsage as = [4104, 4104, 4104, 8112, 8112]"
    by (simp add: MemoryUsage_def)
  then obtain as where r: "Arena_run aligned_blocks doubling Arena_new
           [CallAllocate 1, CallAllocateAligned 5, CallAllocate 2000, CallAllocate 4000,
            CallAllocateAligned 100] = Inr as"
    and mu: "map MemoryUsage as = [4104, 4104, 4104, 8112, 8112]"
    by (elim exE conjE)
  note at_run = MemoryUsage_monotone [of aligned_blocks doubling Arena_new
           "[CallAllocate 1, CallAllocateAligned 5, CallAllocate 2000, CallAllocate 4000,
            CallAllocateAligned 100]" as]
  have s: "sorted (map MemoryUsage (Arena_new # as))"
    using at_run [THEN conjunct1, THEN mp, OF r] .
  have c: "sum_list (map call_bytes
           [CallAllocate 1, CallAllocateAligned 5, CallAllocate 2000, CallAllocate 4000,
            CallAllocateAligned 100]) \<le> MemoryUsage (last (Arena_new # as))"
    using at_run [THEN conjunct2, THEN conjunct1, THEN mp, OF conjI, OF ok r] .
  show ?thesis
    using ok pos al r mu s c
    by - (intro conjI exI [of _ as], assumption+)
qed

text \<open>
  C7 as stated fails. After \<open>Allocate(1)\<close> the bump pointer is one past an aligned block
  start, so \<open>AllocateAligned(2 ^ 64 - 7)\<close> computes a padding of 7 and a padded size
  \<open>bytes + slop\<close> that wraps to 0: the request is served in place, no block is added, and
  \<open>MemoryUsage\<close> stays at 4104 while the sizes requested sum to \<open>2 ^ 64 - 6\<close>.
\<close>

theorem AllocateAligned_padded_size_wraps:
  "map_sum id (map MemoryUsage)
     (Arena_run aligned_blocks doubling Arena_new
        [CallAllocate 1, CallAllocateAligned (2 ^ 64 - 7)]) = Inr [4104, 4104] \<and>
   \<not> sum_list (map call_bytes [CallAllocate 1, CallAllocateAligned (2 ^ 64 - 7)]) \<le> 4104"
  by (simp add: arena_defs Let_def)

text \<open>
  C8. \<open>Allocate\<close> of a positive size: when the size fits in what remains of the current
  block, the result is the bump pointer, which advances by the size, and no block is
  allocated. On overflow a request of more than a quarter of 4096 bytes gets a block of
  its own of exactly the requested size, and the current block and its remainder stay as
  they are; a request of at most a quarter allocates a new block of 4096 bytes, which
  becomes the current block (the remainder of the old one is dropped), and the result is
  its start, with \<open>4096 - bytes\<close> left. In both overflow cases a failing \<open>new\<close> is the
  fault \<open>BadAlloc\<close>.
\<close>

theorem Allocate_policy:
  assumes "0 < bytes"
  shows
    "(bytes \<le> alloc_bytes_remaining_m a \<longrightarrow>
        Allocate new_char grow a bytes =
          Inr (alloc_ptr_m a,
               a\<lparr>alloc_ptr_m := alloc_ptr_m a + bytes,
                 alloc_bytes_remaining_m := alloc_bytes_remaining_m a - bytes\<rparr>)) \<and>
     (alloc_bytes_remaining_m a < bytes \<and> 4096 div 4 < bytes \<longrightarrow>
        Allocate new_char grow a bytes =
          (case new_char (length (elems (blocks_m a))) bytes of
             None \<Rightarrow> Inl BadAlloc
           | Some p \<Rightarrow>
               Inr (p, a\<lparr>blocks_m := push_back grow (blocks_m a) p,
                        blocks_memory_m := blocks_memory_m a + bytes\<rparr>))) \<and>
     (alloc_bytes_remaining_m a < bytes \<and> bytes \<le> 4096 div 4 \<longrightarrow>
        Allocate new_char grow a bytes =
          (case new_char (length (elems (blocks_m a))) 4096 of
             None \<Rightarrow> Inl BadAlloc
           | Some p \<Rightarrow>
               Inr (p, a\<lparr>blocks_m := push_back grow (blocks_m a) p,
                        blocks_memory_m := blocks_memory_m a + 4096,
                        alloc_ptr_m := p + bytes,
                        alloc_bytes_remaining_m := 4096 - bytes\<rparr>)))"
proof (intro conjI impI)
  assume "bytes \<le> alloc_bytes_remaining_m a"
  then show "Allocate new_char grow a bytes =
          Inr (alloc_ptr_m a,
               a\<lparr>alloc_ptr_m := alloc_ptr_m a + bytes,
                 alloc_bytes_remaining_m := alloc_bytes_remaining_m a - bytes\<rparr>)"
    using assms by (simp add: Allocate_def)
next
  assume "alloc_bytes_remaining_m a < bytes \<and> 4096 div 4 < bytes"
  then show "Allocate new_char grow a bytes =
          (case new_char (length (elems (blocks_m a))) bytes of
             None \<Rightarrow> Inl BadAlloc
           | Some p \<Rightarrow>
               Inr (p, a\<lparr>blocks_m := push_back grow (blocks_m a) p,
                        blocks_memory_m := blocks_memory_m a + bytes\<rparr>))"
    using assms
    by (simp add: Allocate_def AllocateFallback_def AllocateNewBlock_def kBlockSize_def
        split: option.splits)
next
  assume "alloc_bytes_remaining_m a < bytes \<and> bytes \<le> 4096 div 4"
  then show "Allocate new_char grow a bytes =
          (case new_char (length (elems (blocks_m a))) 4096 of
             None \<Rightarrow> Inl BadAlloc
           | Some p \<Rightarrow>
               Inr (p, a\<lparr>blocks_m := push_back grow (blocks_m a) p,
                        blocks_memory_m := blocks_memory_m a + 4096,
                        alloc_ptr_m := p + bytes,
                        alloc_bytes_remaining_m := 4096 - bytes\<rparr>))"
    using assms
    by (simp add: Allocate_def AllocateFallback_def AllocateNewBlock_def kBlockSize_def
        Let_def split: option.splits)
qed

theorem Allocate_policy_witness:
  "Allocate aligned_blocks doubling
     \<lparr>alloc_ptr_m = 4294967297, alloc_bytes_remaining_m = 4095,
      blocks_m = \<lparr>elems = [4294967296], capacity = 1\<rparr>, blocks_memory_m = 4096\<rparr> 95 =
   Inr (4294967297,
     \<lparr>alloc_ptr_m = 4294967392, alloc_bytes_remaining_m = 4000,
      blocks_m = \<lparr>elems = [4294967296], capacity = 1\<rparr>, blocks_memory_m = 4096\<rparr>) \<and>
   Allocate aligned_blocks doubling
     \<lparr>alloc_ptr_m = 4294967297, alloc_bytes_remaining_m = 1000,
      blocks_m = \<lparr>elems = [4294967296], capacity = 1\<rparr>, blocks_memory_m = 4096\<rparr> 1025 =
   Inr (8589934592,
     \<lparr>alloc_ptr_m = 4294967297, alloc_bytes_remaining_m = 1000,
      blocks_m = \<lparr>elems = [4294967296, 8589934592], capacity = 2\<rparr>,
      blocks_memory_m = 5121\<rparr>) \<and>
   Allocate aligned_blocks doubling
     \<lparr>alloc_ptr_m = 4294967297, alloc_bytes_remaining_m = 1000,
      blocks_m = \<lparr>elems = [4294967296], capacity = 1\<rparr>, blocks_memory_m = 4096\<rparr> 1024 =
   Inr (8589934592,
     \<lparr>alloc_ptr_m = 8589935616, alloc_bytes_remaining_m = 3072,
      blocks_m = \<lparr>elems = [4294967296, 8589934592], capacity = 2\<rparr>,
      blocks_memory_m = 8192\<rparr>)"
  using
    Allocate_policy [of 95 "\<lparr>alloc_ptr_m = 4294967297, alloc_bytes_remaining_m = 4095,
      blocks_m = \<lparr>elems = [4294967296], capacity = 1\<rparr>, blocks_memory_m = 4096\<rparr>"
      aligned_blocks doubling]
    Allocate_policy [of 1025 "\<lparr>alloc_ptr_m = 4294967297, alloc_bytes_remaining_m = 1000,
      blocks_m = \<lparr>elems = [4294967296], capacity = 1\<rparr>, blocks_memory_m = 4096\<rparr>"
      aligned_blocks doubling]
    Allocate_policy [of 1024 "\<lparr>alloc_ptr_m = 4294967297, alloc_bytes_remaining_m = 1000,
      blocks_m = \<lparr>elems = [4294967296], capacity = 1\<rparr>, blocks_memory_m = 4096\<rparr>"
      aligned_blocks doubling]
  by (simp add: aligned_blocks_def doubling_def push_back_def)

text \<open>
  C9. Let the region of \<open>bits \<le> 64\<close> bits at bit offset \<open>offset\<close> lie inside the buffer,
  as both functions require (\<open>(offset + bits + 7) / 8 \<le> dstlen\<close>). Then
  \<open>BitStreamPutInt\<close> returns a buffer of the same length (its closing assertion holds),
  \<open>BitStreamGetInt\<close> on that buffer at the same offset and width returns the value cut
  to its \<open>bits\<close> low bits, and every bit of the buffer outside
  \<open>[offset, offset + bits)\<close> is as it was.
\<close>

theorem BitStream_put_then_get:
  assumes "(offset + bits + 7) div 8 \<le> length buf" and "bits \<le> 64"
  shows "\<exists>buf'. BitStreamPutInt buf offset bits v = Inr buf' \<and> length buf' = length buf \<and>
           BitStreamGetInt buf' offset bits = Inr (take_bit bits v) \<and>
           (\<forall>i < 8 * length buf. \<not> (offset \<le> i \<and> i < offset + bits) \<longrightarrow>
              buffer_bit buf' i = buffer_bit buf i)"
proof -
  from BitStreamPutInt_bits [OF assms, of v]
  obtain buf' where "BitStreamPutInt buf offset bits v = Inr buf'"
    and "length buf' = length buf"
    and "BitStreamGetInt buf' offset bits = Inr (take_bit bits v)"
    and "\<And>i. buffer_bit buf' i =
              (if offset \<le> i \<and> i < offset + bits then bit v (i - offset)
               else buffer_bit buf i)"
    by auto
  then show ?thesis
    by auto
qed

theorem BitStream_put_then_get_witness:
  "(5 + 10 + 7) div 8 \<le> length [0xFF, 0xFF, 0xFF :: u8] \<and> (10 :: nat) \<le> 64 \<and>
   BitStreamPutInt [0xFF, 0xFF, 0xFF] 5 10 0x555 = Inr [0xBF, 0xAA, 0xFF] \<and>
   BitStreamGetInt [0xBF, 0xAA, 0xFF] 5 10 = Inr 0x155"
  using BitStream_put_then_get [of 5 10 "[0xFF, 0xFF, 0xFF]" "0x555"]
  by (simp add: BitStreamPutInt_def BitStreamGetInt_def BitStreamPutInt_loop.simps
      BitStreamGetInt_loop.simps bits_to_get_def bit_mask_def BitStreamPutInt_byte_def
      BitStreamGetInt_chunk_def Let_def)

text \<open>
  C10. For the batch built by any sequence of \<open>Put\<close>, \<open>Delete\<close> and \<open>Merge\<close> calls, a
  batch constructed from its \<open>Data()\<close> replays to any handler exactly as the batch
  itself does; and when every key and value fits the 32-bit length prefix, the replay
  shows a recording handler exactly the records of the calls, in the order of the calls.
\<close>

theorem WriteBatch_roundtrip:
  "Iterate h (WriteBatch_from (Data (build calls))) s = Iterate h (build calls) s \<and>
   (list_all call_fits calls \<longrightarrow>
      Iterate recorder (WriteBatch_from (Data (build calls))) [] = Inr (Ok, calls))"
  by (simp add: WriteBatch_from_Data Iterate_build)

theorem WriteBatch_roundtrip_witness:
  "list_all call_fits
     [PutRecord [0x6B, 0x65, 0x79] [0x76, 0x31], DeleteRecord [0x6B, 0x65, 0x79],
      PutRecord [0x6B, 0x65, 0x79] [0x76, 0x32], PutRecord [0x6B, 0x65, 0x79] [0x76, 0x33]] \<and>
   Data (build
     [PutRecord [0x6B, 0x65, 0x79] [0x76, 0x31], DeleteRecord [0x6B, 0x65, 0x79],
      PutRecord [0x6B, 0x65, 0x79] [0x76, 0x32], PutRecord [0x6B, 0x65, 0x79] [0x76, 0x33]])
   = [0, 0, 0, 0, 0, 0, 0, 0, 4, 0, 0, 0,
      1, 3, 0x6B, 0x65, 0x79, 2, 0x76, 0x31,
      0, 3, 0x6B, 0x65, 0x79,
      1, 3, 0x6B, 0x65, 0x79, 2, 0x76, 0x32,
      1, 3, 0x6B, 0x65, 0x79, 2, 0x76, 0x33] \<and>
   Iterate recorder (WriteBatch_from (Data (build
     [PutRecord [0x6B, 0x65, 0x79] [0x76, 0x31], DeleteRecord [0x6B, 0x65, 0x79],
      PutRecord [0x6B, 0x65, 0x79] [0x76, 0x32], PutRecord [0x6B, 0x65, 0x79] [0x76, 0x33]]))) []
   = Inr (Ok,
     [PutRecord [0x6B, 0x65, 0x79] [0x76, 0x31], DeleteRecord [0x6B, 0x65, 0x79],
      PutRecord [0x6B, 0x65, 0x79] [0x76, 0x32], PutRecord [0x6B, 0x65, 0x79] [0x76, 0x33]])"
  using WriteBatch_roundtrip [of recorder
     "[PutRecord [0x6B, 0x65, 0x79] [0x76, 0x31], DeleteRecord [0x6B, 0x65, 0x79],
      PutRecord [0x6B, 0x65, 0x79] [0x76, 0x32], PutRecord [0x6B, 0x65, 0x79] [0x76, 0x33]]" "[]"]
  by (simp add: WriteBatch_from_Data) (simp add: batch_defs Let_def)

end
